theory Spec2Isabelle
  imports Main "HOL-Library.Multiset"
begin

section \<open>models.CheckResult\<close>

text \<open>
  The struct \<^verbatim>\<open>models.CheckResult\<close> of \<^verbatim>\<open>internal/models/models.go\<close>.
  \<^verbatim>\<open>CheckedAt\<close> is a clock reading (nanoseconds), \<^verbatim>\<open>ResponseTimeMs\<close> an \<^verbatim>\<open>int64\<close> and
  \<^verbatim>\<open>StatusCode\<close> an \<^verbatim>\<open>int\<close>; the code only stores and compares them, so they are
  unbounded integers here.  A freshly built struct holds Go's zero values: the empty
  string, 0 and false.
\<close>

record CheckResult =
  CheckedAt :: int
  URL :: string
  Error :: string
  ResponseTimeMs :: int
  StatusCode :: int
  Available :: bool

section \<open>The net/http client as the checker uses it\<close>

text \<open>
  The \<^verbatim>\<open>Location\<close> header of a redirect response, as \<^verbatim>\<open>client.Do\<close> reads it.
  \<open>NoLocation\<close>: there is none, and the response is returned as it is.
  \<open>BadLocation\<close>: \<^verbatim>\<open>client.Do\<close> cannot go on from it and returns an error instead
  of the response, with the text of that error; the header is not a URL that can be
  parsed against the URL of the request (or it is missing, in the older releases of Go
  that reject a redirect without \<^verbatim>\<open>Location\<close>).  \<open>Location\<close>: the URL it resolves
  to.
\<close>

datatype location = NoLocation | BadLocation string | Location string

text \<open>
  What one round trip (one GET sent to the network) produces.  \<open>NetFail\<close>: the
  round trip fails (DNS failure, refused connection, a done context, an unsupported
  scheme).  \<open>NetResp\<close>: a response arrives, with its status code and its
  \<^verbatim>\<open>Location\<close> header.  \<open>NetSilent\<close>: nothing ever arrives and the context does
  not end the wait; a client with a deadline gives up at the deadline, a client without
  one waits for ever.

  The strings of \<open>NetFail\<close>, \<open>NetSilent\<close> and \<open>BadLocation\<close> are the texts of
  the errors as \<^verbatim>\<open>client.Do\<close> returns them, that is of the \<^verbatim>\<open>*url.Error\<close> that
  net/http wraps around the cause (\<^verbatim>\<open>Get "<url>": <cause>\<close>); the quoting of the URL
  in that text is the library's and is not modelled.
\<close>

datatype net_reply = NetFail string | NetResp int location | NetSilent string

text \<open>
  What a \<^verbatim>\<open>CheckRedirect\<close> function can return: \<^verbatim>\<open>http.ErrUseLastResponse\<close>,
  \<^verbatim>\<open>nil\<close> (follow the redirect) or another error, with the text of the error that
  \<^verbatim>\<open>client.Do\<close> returns for it.
\<close>

datatype redirect_verdict = ErrUseLastResponse | FollowRedirect | RedirectError string

record http_Client =
  Timeout :: int
  CheckRedirect :: "string \<Rightarrow> string list \<Rightarrow> redirect_verdict"

text \<open>What \<^verbatim>\<open>client.Do\<close> hands back: \<^verbatim>\<open>err != nil\<close>, or a response with its status.\<close>

datatype do_result = DoErr string | DoResp int

definition redirect_status :: "int \<Rightarrow> bool" where
  "redirect_status code = (code = 301 \<or> code = 302 \<or> code = 303 \<or> code = 307 \<or> code = 308)"

text \<open>
  The loop of \<^verbatim>\<open>http.Client.Do\<close> for a GET without body, after the library's source
  and documentation.  \<open>reqs\<close> are the requests sent so far and \<open>url\<close> is the
  request to send.  Each turn appends the request to \<open>reqs\<close> and sends it.
  \<^item> A failed round trip is returned as the error.
  \<^item> When nothing arrives, a client with a deadline (\<^verbatim>\<open>Timeout > 0\<close>) returns the
    deadline's error, and a client without one never returns: the value \<open>None\<close>.
  \<^item> A response that is not a redirect (301, 302, 303, 307, 308) is returned.
  \<^item> For a redirect the \<^verbatim>\<open>Location\<close> header is read first: without one the
    response is returned; one that cannot be parsed is an error, and no response is
    returned.
  \<^item> Then \<^verbatim>\<open>CheckRedirect\<close> is asked about the next request, before it is sent, with
    the requests sent so far: on \<^verbatim>\<open>ErrUseLastResponse\<close> the most recent response is
    returned with a nil error, on another error that error is returned, and on nil the
    loop goes on with the next request.
  The result holds the requests that were sent.  A redirect chain that never ends is
  the value \<open>None\<close> too.
\<close>

partial_function (option) client_do ::
  "http_Client \<Rightarrow> (string \<Rightarrow> net_reply) \<Rightarrow> string list \<Rightarrow> string \<Rightarrow>
     (string list \<times> do_result) option"
where
  "client_do cl transport reqs url =
     (case transport url of
        NetFail e \<Rightarrow> Some (reqs @ [url], DoErr e)
      | NetSilent e \<Rightarrow> (if 0 < Timeout cl then Some (reqs @ [url], DoErr e) else None)
      | NetResp code loc \<Rightarrow>
          (if redirect_status code then
             (case loc of
                NoLocation \<Rightarrow> Some (reqs @ [url], DoResp code)
              | BadLocation e \<Rightarrow> Some (reqs @ [url], DoErr e)
              | Location target \<Rightarrow>
                  (case CheckRedirect cl target (reqs @ [url]) of
                     ErrUseLastResponse \<Rightarrow> Some (reqs @ [url], DoResp code)
                   | RedirectError e \<Rightarrow> Some (reqs @ [url], DoErr e)
                   | FollowRedirect \<Rightarrow> client_do cl transport (reqs @ [url]) target))
           else Some (reqs @ [url], DoResp code)))"

declare client_do.simps [code]

section \<open>The checker\<close>

record Checker =
  client :: http_Client
  maxWorkers :: int

text \<open>\<^verbatim>\<open>New\<close>: the client never follows a redirect.\<close>

definition New :: "int \<Rightarrow> int \<Rightarrow> Checker" where
  "New timeout mw =
     \<lparr>client = \<lparr>Timeout = timeout, CheckRedirect = (\<lambda>req via. ErrUseLastResponse)\<rparr>,
      maxWorkers = mw\<rparr>"

text \<open>
  The outside world during one call of \<^verbatim>\<open>checkURL\<close>: the clock at the two
  \<^verbatim>\<open>time.Now()\<close> calls, the clock at the moment \<^verbatim>\<open>http.NewRequestWithContext\<close> came
  back (the code never reads it), the clock at the moment \<^verbatim>\<open>client.Do\<close> came back (read
  by \<^verbatim>\<open>time.Since(start)\<close>), the error of \<^verbatim>\<open>http.NewRequestWithContext\<close> for a URL
  (\<open>None\<close> when the request can be built), and the transport.  The transport is
  given the client's timeout and whether the context handed to the request is done,
  because the request is built with that context: in Go a round trip under a done
  context fails, it is not silent.  A theorem below that relies on this says so in its
  statement; what the client makes of a silent round trip is in \<open>client_do\<close>.
\<close>

record world =
  clock_checked :: int
  clock_start :: int
  clock_request :: int
  clock_done :: int
  request_error :: "string \<Rightarrow> string option"
  round_trip :: "int \<Rightarrow> bool \<Rightarrow> string \<Rightarrow> net_reply"

text \<open>\<^verbatim>\<open>Duration.Milliseconds\<close>: integer division of the nanoseconds, truncated towards zero.\<close>

definition Milliseconds :: "int \<Rightarrow> int" where
  "Milliseconds d = (if 0 \<le> d then d div 1000000 else - ((- d) div 1000000))"

text \<open>
  \<^verbatim>\<open>checkURL\<close>.  The argument \<open>ctx\<close> says whether the context is done.  The early
  return on a request that cannot be built precedes the reading of the clock.  The
  value is \<open>None\<close> when \<^verbatim>\<open>client.Do\<close> never returns.
\<close>

definition checkURL :: "Checker \<Rightarrow> world \<Rightarrow> bool \<Rightarrow> string \<Rightarrow> CheckResult option" where
  "checkURL c w ctx url =
     (let result = \<lparr>CheckedAt = clock_checked w, URL = url, Error = [],
                     ResponseTimeMs = 0, StatusCode = 0, Available = False\<rparr>;
          start = clock_start w
      in case request_error w url of
           Some err \<Rightarrow> Some (result\<lparr>Error := ''failed to create request: '' @ err\<rparr>)
         | None \<Rightarrow>
             (case client_do (client c) (round_trip w (Timeout (client c)) ctx) [] url of
                None \<Rightarrow> None
              | Some (n, resp) \<Rightarrow>
                  (let duration = clock_done w - start;
                       result = result\<lparr>ResponseTimeMs := Milliseconds duration\<rparr>
                   in case resp of
                        DoErr err \<Rightarrow> Some (result\<lparr>Error := ''request failed: '' @ err\<rparr>)
                      | DoResp code \<Rightarrow>
                          Some (result\<lparr>StatusCode := code,
                                       Available := (200 \<le> code \<and> code < 400)\<rparr>))))"

text \<open>\<^verbatim>\<open>CheckURL\<close>, the exported wrapper.\<close>

definition CheckURL :: "Checker \<Rightarrow> world \<Rightarrow> bool \<Rightarrow> string \<Rightarrow> CheckResult option" where
  "CheckURL c w ctx url = checkURL c w ctx url"

section \<open>CheckURLs: the goroutines as a transition system\<close>

text \<open>
  \<^verbatim>\<open>CheckURLs\<close> starts \<^verbatim>\<open>workerCount\<close> worker goroutines, a producer goroutine that
  feeds the channel \<^verbatim>\<open>jobs\<close> and closes it, and a goroutine that waits for the wait
  group and closes the channel \<^verbatim>\<open>results\<close>; the calling goroutine collects the
  results.  Each goroutine is a small state machine, and a step of the system is a
  step of one of them, chosen by the scheduler.
\<close>

text \<open>
  A worker: before the receive of \<^verbatim>\<open>for url := range jobs\<close>; holding a URL, before
  the \<^verbatim>\<open>select\<close> on \<^verbatim>\<open>ctx.Done()\<close>; inside \<^verbatim>\<open>checkURL\<close>; returned (the deferred
  \<^verbatim>\<open>wg.Done()\<close> has run).
\<close>

datatype wstate = WIdle | WGot string | WProbing string | WDone

text \<open>The producer: not started; in its loop, with the URLs still to send; returned
  (the deferred \<^verbatim>\<open>close(jobs)\<close> has run).\<close>

datatype pstate = PNone | PRun "string list" | PDone

text \<open>The goroutine of \<^verbatim>\<open>wg.Wait(); close(results)\<close>: not started, waiting, returned.\<close>

datatype cstate = CNone | CWait | CDone

text \<open>The calling goroutine: before the computation of \<^verbatim>\<open>workerCount\<close>; in the
  spawn loop with counter \<open>i\<close>; before the second \<^verbatim>\<open>go\<close> statement; in the loop over
  \<^verbatim>\<open>results\<close>; returned.\<close>

datatype mstate = MStart | MSpawn nat | MGoCloser | MCollect | MReturned

text \<open>
  The state of one call.  Both channels are buffered with capacity \<^verbatim>\<open>len(urls)\<close>; a
  channel is its queue and its closed flag.  \<open>cancelled\<close> says that \<^verbatim>\<open>ctx.Done()\<close>
  is closed.  \<open>probes\<close> counts the calls of \<^verbatim>\<open>checkURL\<close> so far (a ghost
  field).  \<open>panicked\<close> is set by an operation on which Go panics.  \<open>returned\<close>
  holds the slice the call returned; the nil slice and the empty slice are both the
  empty list.
\<close>

record state =
  jobs :: "string list"
  jobs_closed :: bool
  results :: "CheckResult list"
  results_closed :: bool
  wg :: int
  workers :: "wstate list"
  producer :: pstate
  closer :: cstate
  main :: mstate
  checkResults :: "CheckResult list"
  cancelled :: bool
  probes :: nat
  panicked :: bool
  returned :: "CheckResult list option"

definition init :: "bool \<Rightarrow> state" where
  "init ctx =
     \<lparr>jobs = [], jobs_closed = False, results = [], results_closed = False, wg = 0,
      workers = [], producer = PNone, closer = CNone, main = MStart, checkResults = [],
      cancelled = ctx, probes = 0, panicked = False, returned = None\<rparr>"

definition panic :: "state \<Rightarrow> state" where
  "panic s = s\<lparr>panicked := True\<rparr>"

definition workerCount :: "Checker \<Rightarrow> string list \<Rightarrow> int" where
  "workerCount c urls =
     (if int (length urls) < maxWorkers c then int (length urls) else maxWorkers c)"

text \<open>
  The calling goroutine.  It returns the empty slice when \<^verbatim>\<open>workerCount == 0\<close>; the
  spawn loop runs while \<^verbatim>\<open>i < workerCount\<close> (not at all for a negative count), each turn
  doing \<^verbatim>\<open>wg.Add(1)\<close> and starting a worker; leaving the loop it starts the producer,
  then the closing goroutine; the receive of \<^verbatim>\<open>range results\<close> takes the oldest
  result, ends the loop on a closed and drained channel, and blocks otherwise.
\<close>

definition main_step :: "Checker \<Rightarrow> string list \<Rightarrow> state \<Rightarrow> state option" where
  "main_step c urls s =
     (case main s of
        MStart \<Rightarrow>
          (if workerCount c urls = 0 then Some (s\<lparr>main := MReturned, returned := Some []\<rparr>)
           else Some (s\<lparr>main := MSpawn 0\<rparr>))
      | MSpawn i \<Rightarrow>
          (if int i < workerCount c urls
           then Some (s\<lparr>wg := wg s + 1, workers := workers s @ [WIdle], main := MSpawn (Suc i)\<rparr>)
           else Some (s\<lparr>producer := PRun urls, main := MGoCloser\<rparr>))
      | MGoCloser \<Rightarrow> Some (s\<lparr>closer := CWait, main := MCollect\<rparr>)
      | MCollect \<Rightarrow>
          (case results s of
             r # rs \<Rightarrow> Some (s\<lparr>results := rs, checkResults := checkResults s @ [r]\<rparr>)
           | [] \<Rightarrow>
               (if results_closed s
                then Some (s\<lparr>main := MReturned, returned := Some (checkResults s)\<rparr>)
                else None))
      | MReturned \<Rightarrow> None)"

text \<open>
  The producer taking the branch \<^verbatim>\<open>jobs <- url\<close> of its \<^verbatim>\<open>select\<close> (ready while the
  buffer has room), or leaving the loop at the end of the list and closing \<^verbatim>\<open>jobs\<close>.
\<close>

definition producer_step :: "string list \<Rightarrow> state \<Rightarrow> state option" where
  "producer_step urls s =
     (case producer s of
        PRun (u # us) \<Rightarrow>
          (if jobs_closed s then Some (panic s)
           else if length (jobs s) < length urls
           then Some (s\<lparr>jobs := jobs s @ [u], producer := PRun us\<rparr>)
           else None)
      | PRun [] \<Rightarrow>
          (if jobs_closed s then Some (panic s)
           else Some (s\<lparr>jobs_closed := True, producer := PDone\<rparr>))
      | PNone \<Rightarrow> None
      | PDone \<Rightarrow> None)"

text \<open>
  The producer taking the branch \<^verbatim>\<open><-ctx.Done()\<close> of its \<^verbatim>\<open>select\<close>: it returns,
  and the deferred \<^verbatim>\<open>close(jobs)\<close> runs.  When both branches are ready Go picks either.
\<close>

definition producer_ctx_step :: "state \<Rightarrow> state option" where
  "producer_ctx_step s =
     (case producer s of
        PRun (u # us) \<Rightarrow>
          (if cancelled s
           then (if jobs_closed s then Some (panic s)
                 else Some (s\<lparr>jobs_closed := True, producer := PDone\<rparr>))
           else None)
      | PRun [] \<Rightarrow> None
      | PNone \<Rightarrow> None
      | PDone \<Rightarrow> None)"

text \<open>\<^verbatim>\<open>wg.Wait()\<close> returns once the counter is zero; then \<^verbatim>\<open>results\<close> is closed.\<close>

definition closer_step :: "state \<Rightarrow> state option" where
  "closer_step s =
     (case closer s of
        CWait \<Rightarrow>
          (if wg s = 0
           then (if results_closed s then Some (panic s)
                 else Some (s\<lparr>results_closed := True, closer := CDone\<rparr>))
           else None)
      | CNone \<Rightarrow> None
      | CDone \<Rightarrow> None)"

text \<open>A worker returning: the deferred \<^verbatim>\<open>wg.Done()\<close> panics on a negative counter.\<close>

definition worker_exit :: "nat \<Rightarrow> state \<Rightarrow> state" where
  "worker_exit k s =
     (if wg s \<le> 0 then panic s
      else s\<lparr>wg := wg s - 1, workers := (workers s)[k := WDone]\<rparr>)"

text \<open>
  Worker \<open>k\<close>.  The receive takes the oldest job, ends the loop on a closed and
  drained channel, and blocks otherwise.  The \<^verbatim>\<open>select\<close> returns when the context
  is done and otherwise takes the \<^verbatim>\<open>default\<close> branch, which calls \<^verbatim>\<open>checkURL\<close>.  The
  probe ends in the world \<open>w\<close>, under the state of the context at that moment, and
  its result is sent on \<^verbatim>\<open>results\<close>.
\<close>

definition worker_step :: "Checker \<Rightarrow> string list \<Rightarrow> nat \<Rightarrow> world \<Rightarrow> state \<Rightarrow> state option" where
  "worker_step c urls k w s =
     (if k < length (workers s) then
        (case workers s ! k of
           WIdle \<Rightarrow>
             (case jobs s of
                u # js \<Rightarrow> Some (s\<lparr>jobs := js, workers := (workers s)[k := WGot u]\<rparr>)
              | [] \<Rightarrow> (if jobs_closed s then Some (worker_exit k s) else None))
         | WGot u \<Rightarrow>
             (if cancelled s then Some (worker_exit k s)
              else Some (s\<lparr>workers := (workers s)[k := WProbing u], probes := Suc (probes s)\<rparr>))
         | WProbing u \<Rightarrow>
             (case checkURL c w (cancelled s) u of
                None \<Rightarrow> None
              | Some r \<Rightarrow>
                  (if results_closed s then Some (panic s)
                   else if length (results s) < length urls
                   then Some (s\<lparr>results := results s @ [r], workers := (workers s)[k := WIdle]\<rparr>)
                   else None))
         | WDone \<Rightarrow> None)
      else None)"

text \<open>The context becoming done (a deadline, or the caller's cancel); it happens once.\<close>

definition cancel_step :: "state \<Rightarrow> state option" where
  "cancel_step s = (if cancelled s then None else Some (s\<lparr>cancelled := True\<rparr>))"

datatype event = EMain | EProducer | EProducerCtx | ECloser | EWorker nat world | ECancel

text \<open>One step of the system; \<open>None\<close> when the chosen goroutine cannot move.  After a
  panic nothing moves.\<close>

definition step :: "Checker \<Rightarrow> string list \<Rightarrow> event \<Rightarrow> state \<Rightarrow> state option" where
  "step c urls e s =
     (if panicked s then None
      else (case e of
              EMain \<Rightarrow> main_step c urls s
            | EProducer \<Rightarrow> producer_step urls s
            | EProducerCtx \<Rightarrow> producer_ctx_step s
            | ECloser \<Rightarrow> closer_step s
            | EWorker k w \<Rightarrow> worker_step c urls k w s
            | ECancel \<Rightarrow> cancel_step s))"

text \<open>A run under a schedule; \<open>None\<close> when the schedule asks for a step that cannot be taken.\<close>

fun exec :: "Checker \<Rightarrow> string list \<Rightarrow> event list \<Rightarrow> state \<Rightarrow> state option" where
  "exec c urls [] s = Some s"
| "exec c urls (e # es) s =
     (case step c urls e s of None \<Rightarrow> None | Some s' \<Rightarrow> exec c urls es s')"

text \<open>
  \<^verbatim>\<open>CheckURLs\<close> under a schedule: the slice returned, if the call has returned by the
  end of the schedule.  \<open>ctx\<close> says whether the context is done at the call.
\<close>

definition CheckURLs :: "Checker \<Rightarrow> bool \<Rightarrow> string list \<Rightarrow> event list \<Rightarrow> CheckResult list option" where
  "CheckURLs c ctx urls sched =
     (case exec c urls sched (init ctx) of None \<Rightarrow> None | Some s \<Rightarrow> returned s)"

subsection \<open>Counting\<close>

text \<open>The workers that have not returned, and those that hold a URL.\<close>

definition alive :: "wstate list \<Rightarrow> nat" where
  "alive ws = length (filter (\<lambda>w. w \<noteq> WDone) ws)"

fun busy :: "wstate \<Rightarrow> bool" where
  "busy (WGot u) = True"
| "busy (WProbing u) = True"
| "busy WIdle = False"
| "busy WDone = False"

definition inflight :: "wstate list \<Rightarrow> nat" where
  "inflight ws = length (filter busy ws)"

fun pending :: "string list \<Rightarrow> pstate \<Rightarrow> nat" where
  "pending urls PNone = length urls"
| "pending urls (PRun us) = length us"
| "pending urls PDone = 0"

text \<open>The URLs in the system: still to send, queued, held by a worker, and the
  results queued and collected.\<close>

definition total :: "string list \<Rightarrow> state \<Rightarrow> nat" where
  "total urls s =
     pending urls (producer s) + length (jobs s) + inflight (workers s) +
     length (results s) + length (checkResults s)"

text \<open>The workers inside \<^verbatim>\<open>checkURL\<close>.\<close>

fun probing :: "wstate \<Rightarrow> bool" where
  "probing (WProbing u) = True"
| "probing (WGot u) = False"
| "probing WIdle = False"
| "probing WDone = False"

definition nprobing :: "wstate list \<Rightarrow> nat" where
  "nprobing ws = length (filter probing ws)"

subsection \<open>The invariant\<close>

text \<open>
  The wait group counts the workers that have not returned; no more workers exist than
  \<^verbatim>\<open>workerCount\<close>; a channel is closed exactly when its closing goroutine has
  returned; \<^verbatim>\<open>results\<close> is closed only after every worker has returned; and before
  the producer starts nothing has moved.
\<close>

definition inv_sync :: "Checker \<Rightarrow> string list \<Rightarrow> state \<Rightarrow> bool" where
  "inv_sync c urls s \<longleftrightarrow>
     \<not> panicked s \<and> wg s = int (alive (workers s)) \<and>
     length (workers s) \<le> nat (workerCount c urls) \<and>
     (jobs_closed s \<longleftrightarrow> producer s = PDone) \<and>
     (results_closed s \<longleftrightarrow> closer s = CDone) \<and>
     (closer s = CDone \<longrightarrow> alive (workers s) = 0) \<and>
     (producer s = PNone \<longrightarrow>
        jobs s = [] \<and> results s = [] \<and> checkResults s = [] \<and> (\<forall>w \<in> set (workers s). w = WIdle))"

text \<open>What each position of the calling goroutine says about the goroutines started.\<close>

definition inv_phase :: "Checker \<Rightarrow> string list \<Rightarrow> state \<Rightarrow> bool" where
  "inv_phase c urls s \<longleftrightarrow>
     (case main s of
        MStart \<Rightarrow> workers s = [] \<and> producer s = PNone \<and> closer s = CNone \<and> returned s = None
      | MSpawn i \<Rightarrow>
          length (workers s) = i \<and> producer s = PNone \<and> closer s = CNone \<and> returned s = None \<and>
          workerCount c urls \<noteq> 0
      | MGoCloser \<Rightarrow>
          length (workers s) = nat (workerCount c urls) \<and> producer s \<noteq> PNone \<and>
          closer s = CNone \<and> returned s = None \<and> workerCount c urls \<noteq> 0
      | MCollect \<Rightarrow>
          length (workers s) = nat (workerCount c urls) \<and> producer s \<noteq> PNone \<and>
          closer s \<noteq> CNone \<and> returned s = None \<and> workerCount c urls \<noteq> 0
      | MReturned \<Rightarrow>
          returned s = Some (checkResults s) \<and>
          (if workerCount c urls = 0
           then workers s = [] \<and> producer s = PNone \<and> closer s = CNone
           else length (workers s) = nat (workerCount c urls) \<and> producer s \<noteq> PNone \<and>
                closer s = CDone \<and> results s = []))"

text \<open>No URL is duplicated, and none is lost while the context is not done.\<close>

definition inv_count :: "string list \<Rightarrow> state \<Rightarrow> bool" where
  "inv_count urls s \<longleftrightarrow>
     total urls s \<le> length urls \<and> (\<not> cancelled s \<longrightarrow> total urls s = length urls)"

text \<open>While the context is not done a worker returns only from the closed, drained channel.\<close>

definition inv_done :: "state \<Rightarrow> bool" where
  "inv_done s \<longleftrightarrow> (\<not> cancelled s \<and> WDone \<in> set (workers s) \<longrightarrow> jobs_closed s \<and> jobs s = [])"

text \<open>Every result comes from one call of \<^verbatim>\<open>checkURL\<close>.\<close>

definition inv_probe :: "state \<Rightarrow> bool" where
  "inv_probe s \<longleftrightarrow>
     probes s = nprobing (workers s) + length (results s) + length (checkResults s)"

definition inv :: "Checker \<Rightarrow> string list \<Rightarrow> state \<Rightarrow> bool" where
  "inv c urls s \<longleftrightarrow>
     inv_sync c urls s \<and> inv_phase c urls s \<and> inv_count urls s \<and> inv_done s \<and> inv_probe s"

text \<open>
  The URLs in the system as a multiset: those the producer has still to send, those
  queued, those held by workers, and those of the results queued and collected.
\<close>

fun held :: "wstate \<Rightarrow> string multiset" where
  "held (WGot u) = {#u#}"
| "held (WProbing u) = {#u#}"
| "held WIdle = {#}"
| "held WDone = {#}"

fun unsent :: "string list \<Rightarrow> pstate \<Rightarrow> string multiset" where
  "unsent urls PNone = mset urls"
| "unsent urls (PRun us) = mset us"
| "unsent urls PDone = {#}"

definition urls_in :: "string list \<Rightarrow> state \<Rightarrow> string multiset" where
  "urls_in urls s =
     unsent urls (producer s) + mset (jobs s) + sum_list (map held (workers s)) +
     mset (map URL (results s)) + mset (map URL (checkResults s))"

subsection \<open>The measure\<close>

text \<open>
  A weight that every step lowers: a URL weighs less at each stage of its way from the
  producer to the collected results, and each goroutine weighs less at each position
  closer to its return.
\<close>

fun worker_mu :: "wstate \<Rightarrow> nat" where
  "worker_mu WIdle = 1"
| "worker_mu (WGot u) = 4"
| "worker_mu (WProbing u) = 3"
| "worker_mu WDone = 0"

fun producer_mu :: "string list \<Rightarrow> pstate \<Rightarrow> nat" where
  "producer_mu urls PNone = 5 * length urls + 2"
| "producer_mu urls (PRun us) = 5 * length us + 1"
| "producer_mu urls PDone = 0"

fun closer_mu :: "cstate \<Rightarrow> nat" where
  "closer_mu CNone = 2"
| "closer_mu CWait = 1"
| "closer_mu CDone = 0"

fun main_mu :: "nat \<Rightarrow> mstate \<Rightarrow> nat" where
  "main_mu n MStart = 2 * n + 4"
| "main_mu n (MSpawn i) = 2 * (n - i) + 3"
| "main_mu n MGoCloser = 2"
| "main_mu n MCollect = 1"
| "main_mu n MReturned = 0"

definition mu :: "Checker \<Rightarrow> string list \<Rightarrow> state \<Rightarrow> nat" where
  "mu c urls s =
     (if panicked s then 0 else 1) + (if cancelled s then 0 else 1) +
     main_mu (nat (workerCount c urls)) (main s) + producer_mu urls (producer s) +
     closer_mu (closer s) + sum_list (map worker_mu (workers s)) +
     4 * length (jobs s) + length (results s)"

section \<open>A world and schedules to run the model on\<close>

text \<open>
  The text of a \<^verbatim>\<open>*url.Error\<close> of a GET, for a URL of printable ASCII characters
  without quote or backslash (which \<^verbatim>\<open>%q\<close> leaves as they are).
\<close>

definition url_error :: "string \<Rightarrow> string \<Rightarrow> string" where
  "url_error url cause = ''Get '' @ [CHR 0x22] @ url @ [CHR 0x22] @ '': '' @ cause"

text \<open>The same for the \<^verbatim>\<open>*url.Error\<close> of \<^verbatim>\<open>url.Parse\<close>, which
  \<^verbatim>\<open>http.NewRequestWithContext\<close> returns for a URL it cannot parse.\<close>

definition parse_error :: "string \<Rightarrow> string \<Rightarrow> string" where
  "parse_error url cause = ''parse '' @ [CHR 0x22] @ url @ [CHR 0x22] @ '': '' @ cause"

text \<open>
  A world in which a request with a done context fails, as net/http's transport does;
  one URL cannot be parsed, one redirects, one redirects with a \<^verbatim>\<open>Location\<close> that
  cannot be parsed, one is not found, one refuses the connection, one never answers,
  and every other URL answers 200 after 42 ms.
\<close>

definition world_ok :: world where
  "world_ok =
     \<lparr>clock_checked = 0, clock_start = 1000, clock_request = 2000, clock_done = 42001000,
      request_error =
        (\<lambda>url. if url = ''://invalid-url'' then Some (parse_error url ''missing protocol scheme'')
              else None),
      round_trip =
        (\<lambda>timeout ctx url.
           if ctx then NetFail (url_error url ''context canceled'')
           else if url = ''http://moved'' then NetResp 301 (Location ''http://ok'')
           else if url = ''http://badloc'' then
             NetResp 301 (BadLocation (url_error url ''failed to parse Location header''))
           else if url = ''http://gone'' then NetResp 404 NoLocation
           else if url = ''http://down'' then NetFail (url_error url ''connection refused'')
           else if url = ''http://silent'' then
             NetSilent (url_error url ''context deadline exceeded'')
           else NetResp 200 NoLocation)\<rparr>"

text \<open>
  Schedules.  \<open>sched_two\<close>: one worker checks two URLs and the call returns both
  results.  \<open>sched_cancel_mid\<close>: the context becomes done after the first probe; the
  worker drops the second URL.  \<open>sched_no_workers\<close> and \<open>sched_empty\<close>: the full
  run of a call that spawns no worker, for one URL and for none.  \<open>sched_inflight\<close>:
  the context becomes done while the only probe is in flight.  \<open>sched_holding\<close>:
  the context becomes done before the worker receives the second URL.
  \<open>sched_probing\<close>: the run up to the moment the only probe is in flight.  \<open>sched_one\<close>: one
  probe, with or without the context becoming done while it is in flight.
\<close>

definition sched_two :: "event list" where
  "sched_two =
     [EMain, EMain, EMain, EMain, EProducer, EProducer, EProducer,
      EWorker 0 world_ok, EWorker 0 world_ok, EWorker 0 world_ok, EMain,
      EWorker 0 world_ok, EWorker 0 world_ok, EWorker 0 world_ok, EWorker 0 world_ok,
      ECloser, EMain, EMain]"

definition sched_cancel_mid :: "event list" where
  "sched_cancel_mid =
     [EMain, EMain, EMain, EMain, EProducer, EProducer, EProducer,
      EWorker 0 world_ok, EWorker 0 world_ok, EWorker 0 world_ok, ECancel,
      EWorker 0 world_ok, EWorker 0 world_ok, ECloser, EMain, EMain]"

definition sched_no_workers :: "event list" where
  "sched_no_workers = [EMain, EMain, EMain, EProducer, EProducer, ECloser, EMain]"

definition sched_empty :: "event list" where
  "sched_empty = [EMain, EMain, EMain, EProducer, ECloser, EMain]"

definition sched_inflight :: "event list" where
  "sched_inflight =
     [EMain, EMain, EMain, EMain, EProducer, EProducer, EWorker 0 world_ok, EWorker 0 world_ok,
      ECancel]"

definition sched_probing :: "event list" where
  "sched_probing =
     [EMain, EMain, EMain, EMain, EProducer, EProducer, EWorker 0 world_ok, EWorker 0 world_ok]"

definition sched_holding :: "event list" where
  "sched_holding =
     [EMain, EMain, EMain, EMain, EProducer, EProducer, EProducer,
      EWorker 0 world_ok, EWorker 0 world_ok, EWorker 0 world_ok, ECancel, EWorker 0 world_ok]"

definition sched_one :: "bool \<Rightarrow> event list" where
  "sched_one cancel =
     [EMain, EMain, EMain, EMain, EProducer, EProducer, EWorker 0 world_ok, EWorker 0 world_ok] @
     (if cancel then [ECancel] else []) @
     [EWorker 0 world_ok, EWorker 0 world_ok, ECloser, EMain, EMain]"

section \<open>Facts about the probe\<close>

lemma client_do_New:
  "client_do (client (New timeout mw)) transport reqs url =
     (case transport url of
        NetFail e \<Rightarrow> Some (reqs @ [url], DoErr e)
      | NetSilent e \<Rightarrow> (if 0 < timeout then Some (reqs @ [url], DoErr e) else None)
      | NetResp code loc \<Rightarrow>
          (case loc of
             BadLocation e \<Rightarrow>
               (if redirect_status code then Some (reqs @ [url], DoErr e)
                else Some (reqs @ [url], DoResp code))
           | NoLocation \<Rightarrow> Some (reqs @ [url], DoResp code)
           | Location target \<Rightarrow> Some (reqs @ [url], DoResp code)))"
  by (subst client_do.simps) (simp add: New_def split: net_reply.splits location.splits)

lemma Timeout_New: "Timeout (client (New timeout mw)) = timeout"
  by (simp add: New_def)

lemma maxWorkers_New: "maxWorkers (New timeout mw) = mw"
  by (simp add: New_def)

lemma checkURL_url: "checkURL c w ctx url = Some r \<Longrightarrow> URL r = url"
  by (auto simp: checkURL_def Let_def split: option.splits do_result.splits)

text \<open>A client whose \<^verbatim>\<open>CheckRedirect\<close> returns nil follows the redirect: two requests.\<close>

lemma client_do_follow_example:
  "client_do \<lparr>Timeout = 5000, CheckRedirect = (\<lambda>req via. FollowRedirect)\<rparr>
     (round_trip world_ok 5000 False) [] ''http://moved'' =
     Some ([''http://moved'', ''http://ok''], DoResp 200)"
  by (simp add: client_do.simps world_ok_def redirect_status_def)

text \<open>A client without deadline never returns from a server that never answers; a
  client with a deadline does.\<close>

lemma checkURL_silent_example:
  "checkURL (New 0 1) world_ok False ''http://silent'' = None \<and>
   map_option Error (checkURL (New 5000 1) world_ok False ''http://silent'') =
     Some (''request failed: '' @ url_error ''http://silent'' ''context deadline exceeded'')"
  by (simp add: checkURL_def client_do_New Timeout_New world_ok_def)

section \<open>Facts about the transition system\<close>

lemma filter_update_count:
  "k < length ws \<Longrightarrow>
     length (filter P (ws[k := w])) + (if P (ws ! k) then 1 else 0) =
     length (filter P ws) + (if P w then 1 else 0)"
proof (induction ws arbitrary: k)
  case Nil
  then show ?case by simp
next
  case (Cons a ws)
  then show ?case by (cases k) auto
qed

lemma alive_update:
  "k < length ws \<Longrightarrow>
     alive (ws[k := w]) + (if ws ! k \<noteq> WDone then 1 else 0) =
     alive ws + (if w \<noteq> WDone then 1 else 0)"
  unfolding alive_def by (rule filter_update_count)

lemma inflight_update:
  "k < length ws \<Longrightarrow>
     inflight (ws[k := w]) + (if busy (ws ! k) then 1 else 0) =
     inflight ws + (if busy w then 1 else 0)"
  unfolding inflight_def by (rule filter_update_count)

lemma alive_append: "alive (ws @ [w]) = alive ws + (if w \<noteq> WDone then 1 else 0)"
  by (simp add: alive_def)

lemma inflight_append: "inflight (ws @ [w]) = inflight ws + (if busy w then 1 else 0)"
  by (simp add: inflight_def)

lemma inflight_le_alive: "inflight ws \<le> alive ws"
proof (induction ws)
  case Nil
  then show ?case by (simp add: inflight_def alive_def)
next
  case (Cons a ws)
  then show ?case by (cases a) (auto simp: inflight_def alive_def)
qed

lemma alive_le_length: "alive ws \<le> length ws"
  by (simp add: alive_def)

lemma alive_less_iff: "alive ws < length ws \<longleftrightarrow> WDone \<in> set ws"
proof (induction ws)
  case Nil
  then show ?case by (simp add: alive_def)
next
  case (Cons a ws)
  have "length (filter (\<lambda>w. w \<noteq> WDone) ws) \<le> length ws" by simp
  with Cons show ?case by (auto simp: alive_def less_Suc_eq_le)
qed

lemma alive_pos_ex: "0 < alive ws \<Longrightarrow> \<exists>k<length ws. ws ! k \<noteq> WDone"
proof -
  assume "0 < alive ws"
  then have "filter (\<lambda>w. w \<noteq> WDone) ws \<noteq> []" by (auto simp: alive_def)
  then obtain w where "w \<in> set ws" "w \<noteq> WDone" by (auto simp: filter_empty_conv)
  then show ?thesis by (auto simp: in_set_conv_nth)
qed

lemma nprobing_update:
  "k < length ws \<Longrightarrow>
     nprobing (ws[k := w]) + (if probing (ws ! k) then 1 else 0) =
     nprobing ws + (if probing w then 1 else 0)"
  unfolding nprobing_def by (rule filter_update_count)

lemma nprobing_append: "nprobing (ws @ [w]) = nprobing ws + (if probing w then 1 else 0)"
  by (simp add: nprobing_def)

lemma nprobing_le_inflight: "nprobing ws \<le> inflight ws"
proof (induction ws)
  case Nil
  then show ?case by (simp add: inflight_def nprobing_def)
next
  case (Cons a ws)
  then show ?case by (cases a) (auto simp: inflight_def nprobing_def)
qed

lemma inv_init: "inv c urls (init ctx)"
  by (simp add: inv_def inv_sync_def inv_phase_def inv_count_def inv_done_def inv_probe_def
      init_def alive_def total_def inflight_def nprobing_def)

lemma inv_parts:
  "inv c urls s \<Longrightarrow> inv_sync c urls s"
  "inv c urls s \<Longrightarrow> inv_phase c urls s"
  "inv c urls s \<Longrightarrow> inv_count urls s"
  "inv c urls s \<Longrightarrow> inv_done s"
  "inv c urls s \<Longrightarrow> inv_probe s"
  by (simp_all add: inv_def)

lemma inv_main_step:
  assumes I: "inv c urls s" and S: "main_step c urls s = Some s'"
  shows "inv c urls s'"
proof -
  note sy = inv_parts(1) [OF I, unfolded inv_sync_def]
  note ph = inv_parts(2) [OF I, unfolded inv_phase_def]
  note cn = inv_parts(3) [OF I, unfolded inv_count_def total_def]
  note pr = inv_parts(5) [OF I, unfolded inv_probe_def]
  note dn = inv_parts(4) [OF I, unfolded inv_done_def]
  show ?thesis
  proof (cases "main s")
    case MStart
    with S have s': "s' = (if workerCount c urls = 0
        then s\<lparr>main := MReturned, returned := Some []\<rparr> else s\<lparr>main := MSpawn 0\<rparr>)"
      by (simp add: main_step_def split: if_splits)
    have "inv_sync c urls s'" using sy by (auto simp: s' inv_sync_def)
    moreover have "inv_phase c urls s'" using MStart ph sy by (auto simp: s' inv_phase_def)
    moreover have "inv_count urls s'" using cn by (simp add: s' inv_count_def total_def)
    moreover have "inv_done s'" using dn by (simp add: s' inv_done_def)
    moreover have "inv_probe s'" using pr
      by (auto simp: s' inv_probe_def nprobing_append)
    ultimately show ?thesis by (simp add: inv_def)
  next
    case (MSpawn i)
    show ?thesis
    proof (cases "int i < workerCount c urls")
      case True
      with S MSpawn have s': "s' = s\<lparr>wg := wg s + 1, workers := workers s @ [WIdle], main := MSpawn (Suc i)\<rparr>"
        by (simp add: main_step_def)
      have "inv_sync c urls s'" using MSpawn True sy ph
        by (auto simp: s' inv_sync_def alive_append)
      moreover have "inv_phase c urls s'" using MSpawn ph by (simp add: s' inv_phase_def)
      moreover have "inv_count urls s'" using cn
        by (simp add: s' inv_count_def total_def inflight_append)
      moreover have "inv_done s'" using MSpawn dn sy ph by (auto simp: s' inv_done_def)
      moreover have "inv_probe s'" using pr
        by (auto simp: s' inv_probe_def nprobing_append)
      ultimately show ?thesis by (simp add: inv_def)
    next
      case False
      with S MSpawn have s': "s' = s\<lparr>producer := PRun urls, main := MGoCloser\<rparr>"
        by (simp add: main_step_def)
      have "inv_sync c urls s'" using MSpawn sy ph by (simp add: s' inv_sync_def)
      moreover have "inv_phase c urls s'" using MSpawn False ph sy
        by (auto simp: s' inv_phase_def)
      moreover have "inv_count urls s'" using MSpawn cn ph
        by (simp add: s' inv_count_def total_def)
      moreover have "inv_done s'" using MSpawn dn sy ph by (auto simp: s' inv_done_def)
      moreover have "inv_probe s'" using pr
        by (auto simp: s' inv_probe_def nprobing_append)
      ultimately show ?thesis by (simp add: inv_def)
    qed
  next
    case MGoCloser
    with S have s': "s' = s\<lparr>closer := CWait, main := MCollect\<rparr>"
      by (simp add: main_step_def)
    have "inv_sync c urls s'" using MGoCloser sy ph by (simp add: s' inv_sync_def)
    moreover have "inv_phase c urls s'" using MGoCloser ph by (simp add: s' inv_phase_def)
    moreover have "inv_count urls s'" using cn by (simp add: s' inv_count_def total_def)
    moreover have "inv_done s'" using dn by (simp add: s' inv_done_def)
    moreover have "inv_probe s'" using pr
      by (auto simp: s' inv_probe_def nprobing_append)
    ultimately show ?thesis by (simp add: inv_def)
  next
    case MCollect
    show ?thesis
    proof (cases "results s")
      case Nil
      with S MCollect have cl: "results_closed s"
        and s': "s' = s\<lparr>main := MReturned, returned := Some (checkResults s)\<rparr>"
        by (simp_all add: main_step_def split: if_splits)
      have "inv_sync c urls s'" using sy by (simp add: s' inv_sync_def)
      moreover have "inv_phase c urls s'" using MCollect cl Nil ph sy by (simp add: s' inv_phase_def)
      moreover have "inv_count urls s'" using cn by (simp add: s' inv_count_def total_def)
      moreover have "inv_done s'" using dn by (simp add: s' inv_done_def)
      moreover have "inv_probe s'" using pr
        by (auto simp: s' inv_probe_def nprobing_append)
      ultimately show ?thesis by (simp add: inv_def)
    next
      case (Cons r rs)
      with S MCollect have s': "s' = s\<lparr>results := rs, checkResults := checkResults s @ [r]\<rparr>"
        by (simp add: main_step_def)
      have "inv_sync c urls s'" using MCollect sy ph by (simp add: s' inv_sync_def)
      moreover have "inv_phase c urls s'" using MCollect ph by (simp add: s' inv_phase_def)
      moreover have "inv_count urls s'" using cn Cons by (simp add: s' inv_count_def total_def)
      moreover have "inv_done s'" using dn by (simp add: s' inv_done_def)
      moreover have "inv_probe s'" using pr Cons
        by (auto simp: s' inv_probe_def nprobing_append)
      ultimately show ?thesis by (simp add: inv_def)
    qed
  next
    case MReturned
    with S show ?thesis by (simp add: main_step_def)
  qed
qed

lemma alive_pos: "k < length ws \<Longrightarrow> ws ! k \<noteq> WDone \<Longrightarrow> 0 < alive ws"
proof -
  assume "k < length ws" and "ws ! k \<noteq> WDone"
  then have "ws ! k \<in> set (filter (\<lambda>w. w \<noteq> WDone) ws)" by simp
  then have "filter (\<lambda>w. w \<noteq> WDone) ws \<noteq> []" by (metis empty_iff empty_set)
  then show ?thesis by (simp add: alive_def)
qed

lemma WDone_update: "WDone \<in> set (ws[k := w]) \<Longrightarrow> w \<noteq> WDone \<Longrightarrow> WDone \<in> set ws"
  using set_update_subset_insert [of ws k w] by auto

lemma inv_producer_step:
  assumes I: "inv c urls s" and S: "producer_step urls s = Some s'"
  shows "inv c urls s'"
proof -
  note sy = inv_parts(1) [OF I, unfolded inv_sync_def]
  note ph = inv_parts(2) [OF I, unfolded inv_phase_def]
  note cn = inv_parts(3) [OF I, unfolded inv_count_def total_def]
  note pr = inv_parts(5) [OF I, unfolded inv_probe_def]
  note dn = inv_parts(4) [OF I, unfolded inv_done_def]
  from S obtain us where P: "producer s = PRun us"
    by (cases "producer s") (simp_all add: producer_step_def)
  from sy P have nc: "\<not> jobs_closed s" by simp
  show ?thesis
  proof (cases us)
    case Nil
    with S P nc have s': "s' = s\<lparr>jobs_closed := True, producer := PDone\<rparr>"
      by (simp add: producer_step_def)
    have "inv_sync c urls s'" using P sy by (simp add: s' inv_sync_def)
    moreover have "inv_phase c urls s'" using P ph
      by (auto simp: s' inv_phase_def split: mstate.splits if_splits)
    moreover have "inv_count urls s'" using P Nil cn by (simp add: s' inv_count_def total_def)
    moreover have "inv_done s'" using P dn sy by (auto simp: s' inv_done_def)
    moreover have "inv_probe s'" using pr
      by (auto simp: s' inv_probe_def nprobing_append)
    ultimately show ?thesis by (simp add: inv_def)
  next
    case (Cons u us')
    with S P nc have s': "s' = s\<lparr>jobs := jobs s @ [u], producer := PRun us'\<rparr>"
      by (simp add: producer_step_def split: if_splits)
    have "inv_sync c urls s'" using P sy by (simp add: s' inv_sync_def)
    moreover have "inv_phase c urls s'" using P ph
      by (auto simp: s' inv_phase_def split: mstate.splits if_splits)
    moreover have "inv_count urls s'" using P Cons cn by (simp add: s' inv_count_def total_def)
    moreover have "inv_done s'" using P dn sy by (auto simp: s' inv_done_def)
    moreover have "inv_probe s'" using pr
      by (auto simp: s' inv_probe_def nprobing_append)
    ultimately show ?thesis by (simp add: inv_def)
  qed
qed

lemma inv_producer_ctx_step:
  assumes I: "inv c urls s" and S: "producer_ctx_step s = Some s'"
  shows "inv c urls s'"
proof -
  note sy = inv_parts(1) [OF I, unfolded inv_sync_def]
  note ph = inv_parts(2) [OF I, unfolded inv_phase_def]
  note cn = inv_parts(3) [OF I, unfolded inv_count_def total_def]
  note pr = inv_parts(5) [OF I, unfolded inv_probe_def]
  note dn = inv_parts(4) [OF I, unfolded inv_done_def]
  from S obtain u us where P: "producer s = PRun (u # us)" and C: "cancelled s"
    by (auto simp: producer_ctx_step_def split: pstate.splits list.splits if_splits)
  from sy P have nc: "\<not> jobs_closed s" by simp
  with S P C have s': "s' = s\<lparr>jobs_closed := True, producer := PDone\<rparr>"
    by (simp add: producer_ctx_step_def)
  have "inv_sync c urls s'" using P sy by (simp add: s' inv_sync_def)
  moreover have "inv_phase c urls s'" using P ph
    by (auto simp: s' inv_phase_def split: mstate.splits if_splits)
  moreover have "inv_count urls s'" using P C cn by (simp add: s' inv_count_def total_def)
  moreover have "inv_done s'" using C by (simp add: s' inv_done_def)
  moreover have "inv_probe s'" using pr
    by (auto simp: s' inv_probe_def nprobing_append)
  ultimately show ?thesis by (simp add: inv_def)
qed

lemma inv_closer_step:
  assumes I: "inv c urls s" and S: "closer_step s = Some s'"
  shows "inv c urls s'"
proof -
  note sy = inv_parts(1) [OF I, unfolded inv_sync_def]
  note ph = inv_parts(2) [OF I, unfolded inv_phase_def]
  note cn = inv_parts(3) [OF I, unfolded inv_count_def total_def]
  note pr = inv_parts(5) [OF I, unfolded inv_probe_def]
  note dn = inv_parts(4) [OF I, unfolded inv_done_def]
  from S have P: "closer s = CWait" and W: "wg s = 0"
    by (auto simp: closer_step_def split: cstate.splits if_splits)
  from sy P have nc: "\<not> results_closed s" by simp
  with S P W have s': "s' = s\<lparr>results_closed := True, closer := CDone\<rparr>"
    by (simp add: closer_step_def)
  have "inv_sync c urls s'" using P W sy by (simp add: s' inv_sync_def)
  moreover have "inv_phase c urls s'" using P ph
    by (auto simp: s' inv_phase_def split: mstate.splits if_splits)
  moreover have "inv_count urls s'" using cn by (simp add: s' inv_count_def total_def)
  moreover have "inv_done s'" using dn by (simp add: s' inv_done_def)
  moreover have "inv_probe s'" using pr
    by (auto simp: s' inv_probe_def nprobing_append)
  ultimately show ?thesis by (simp add: inv_def)
qed

lemma inv_cancel_step:
  assumes I: "inv c urls s" and S: "cancel_step s = Some s'"
  shows "inv c urls s'"
proof -
  note sy = inv_parts(1) [OF I, unfolded inv_sync_def]
  note ph = inv_parts(2) [OF I, unfolded inv_phase_def]
  note cn = inv_parts(3) [OF I, unfolded inv_count_def total_def]
  note pr = inv_parts(5) [OF I, unfolded inv_probe_def]
  from S have s': "s' = s\<lparr>cancelled := True\<rparr>"
    by (simp add: cancel_step_def split: if_splits)
  have "inv_sync c urls s'" using sy by (simp add: s' inv_sync_def)
  moreover have "inv_phase c urls s'" using ph
    by (auto simp: s' inv_phase_def split: mstate.splits if_splits)
  moreover have "inv_count urls s'" using cn by (simp add: s' inv_count_def total_def)
  moreover have "inv_done s'" by (simp add: s' inv_done_def)
  moreover have "inv_probe s'" using pr
    by (auto simp: s' inv_probe_def nprobing_append)
  ultimately show ?thesis by (simp add: inv_def)
qed

lemma inv_worker_exit:
  assumes I: "inv c urls s" and K: "k < length (workers s)" and A: "workers s ! k \<noteq> WDone"
    and D: "(cancelled s \<and> (\<exists>u. workers s ! k = WGot u)) \<or>
            (workers s ! k = WIdle \<and> jobs_closed s \<and> jobs s = [])"
  shows "inv c urls (worker_exit k s)"
proof -
  note sy = inv_parts(1) [OF I, unfolded inv_sync_def]
  note ph = inv_parts(2) [OF I, unfolded inv_phase_def]
  note cn = inv_parts(3) [OF I, unfolded inv_count_def total_def]
  note pr = inv_parts(5) [OF I, unfolded inv_probe_def]
  note dn = inv_parts(4) [OF I, unfolded inv_done_def]
  from alive_pos [OF K A] sy have W: "0 < wg s" by simp
  define s' where "s' = s\<lparr>wg := wg s - 1, workers := (workers s)[k := WDone]\<rparr>"
  from W have E: "worker_exit k s = s'" by (simp add: worker_exit_def s'_def)
  from alive_update [OF K, of WDone] A
  have al: "alive ((workers s)[k := WDone]) + 1 = alive (workers s)" by simp
  from inflight_update [OF K, of WDone]
  have fl: "inflight ((workers s)[k := WDone]) \<le> inflight (workers s)"
    by (simp split: if_splits)
  have fl': "\<not> busy (workers s ! k) \<Longrightarrow> inflight ((workers s)[k := WDone]) = inflight (workers s)"
    using inflight_update [OF K, of WDone] by simp
  from nprobing_update [OF K, of WDone] D
  have np1: "nprobing ((workers s)[k := WDone]) = nprobing (workers s)" by auto
  have np: "producer s \<noteq> PNone"
  proof
    assume "producer s = PNone"
    with sy D nth_mem [OF K] show False by auto
  qed
  have nd: "closer s \<noteq> CDone" using sy alive_pos [OF K A] by auto
  have "inv_sync c urls s'" using sy np nd al by (auto simp: s'_def inv_sync_def)
  moreover have "inv_phase c urls s'" using ph np nd K
    by (auto simp: s'_def inv_phase_def split: mstate.splits if_splits)
  moreover have "inv_count urls s'"
  proof (cases "cancelled s")
    case True
    then show ?thesis using cn fl by (simp add: s'_def inv_count_def total_def)
  next
    case False
    with D have "\<not> busy (workers s ! k)" by simp
    from fl' [OF this] show ?thesis using cn by (simp add: s'_def inv_count_def total_def)
  qed
  moreover have "inv_done s'" using D dn by (auto simp: s'_def inv_done_def)
  moreover have "inv_probe s'" using pr np1
    by (auto simp: s'_def inv_probe_def nprobing_append)
  ultimately show ?thesis by (simp add: inv_def E)
qed

lemma inv_worker_step:
  assumes I: "inv c urls s" and S: "worker_step c urls k w s = Some s'"
  shows "inv c urls s'"
proof -
  note sy = inv_parts(1) [OF I, unfolded inv_sync_def]
  note ph = inv_parts(2) [OF I, unfolded inv_phase_def]
  note cn = inv_parts(3) [OF I, unfolded inv_count_def total_def]
  note pr = inv_parts(5) [OF I, unfolded inv_probe_def]
  note dn = inv_parts(4) [OF I, unfolded inv_done_def]
  from S have K: "k < length (workers s)"
    by (simp add: worker_step_def split: if_splits)
  show ?thesis
  proof (cases "workers s ! k")
    case WIdle
    show ?thesis
    proof (cases "jobs s")
      case Nil
      with S K WIdle have cl: "jobs_closed s" and s': "s' = worker_exit k s"
        by (simp_all add: worker_step_def split: if_splits)
      show ?thesis unfolding s'
        by (rule inv_worker_exit [OF I K]) (simp_all add: WIdle cl Nil)
    next
      case (Cons u js)
      with S K WIdle have s': "s' = s\<lparr>jobs := js, workers := (workers s)[k := WGot u]\<rparr>"
        by (simp add: worker_step_def)
      from alive_update [OF K, of "WGot u"] WIdle
      have al: "alive ((workers s)[k := WGot u]) = alive (workers s)" by simp
      from inflight_update [OF K, of "WGot u"] WIdle
      have fl: "inflight ((workers s)[k := WGot u]) = inflight (workers s) + 1" by simp
      from nprobing_update [OF K, of "WGot u"] WIdle
      have np1: "nprobing ((workers s)[k := WGot u]) = nprobing (workers s)" by simp
      have np: "producer s \<noteq> PNone" using sy Cons by auto
      have nd: "closer s \<noteq> CDone" using sy alive_pos [OF K] WIdle by auto
      have "inv_sync c urls s'" using sy np nd al by (auto simp: s' inv_sync_def)
      moreover have "inv_phase c urls s'" using ph np nd
        by (auto simp: s' inv_phase_def split: mstate.splits if_splits)
      moreover have "inv_count urls s'" using cn fl Cons
        by (simp add: s' inv_count_def total_def)
      moreover have "inv_done s'" using dn Cons WDone_update [of "workers s" k "WGot u"]
        by (auto simp: s' inv_done_def)
      moreover have "inv_probe s'" using pr np1
        by (auto simp: s' inv_probe_def nprobing_append)
      ultimately show ?thesis by (simp add: inv_def)
    qed
  next
    case (WGot u)
    show ?thesis
    proof (cases "cancelled s")
      case True
      with S K WGot have s': "s' = worker_exit k s"
        by (simp add: worker_step_def)
      show ?thesis unfolding s'
        by (rule inv_worker_exit [OF I K]) (simp_all add: WGot True)
    next
      case False
      with S K WGot have s': "s' = s\<lparr>workers := (workers s)[k := WProbing u],
          probes := Suc (probes s)\<rparr>"
        by (simp add: worker_step_def)
      from alive_update [OF K, of "WProbing u"] WGot
      have al: "alive ((workers s)[k := WProbing u]) = alive (workers s)" by simp
      from inflight_update [OF K, of "WProbing u"] WGot
      have fl: "inflight ((workers s)[k := WProbing u]) = inflight (workers s)" by simp
      from nprobing_update [OF K, of "WProbing u"] WGot
      have np1: "nprobing ((workers s)[k := WProbing u]) = nprobing (workers s) + 1" by simp
      have np: "producer s \<noteq> PNone" using sy nth_mem [OF K] WGot by auto
      have nd: "closer s \<noteq> CDone" using sy alive_pos [OF K] WGot by auto
      have "inv_sync c urls s'" using sy np nd al by (auto simp: s' inv_sync_def)
      moreover have "inv_phase c urls s'" using ph np nd
        by (auto simp: s' inv_phase_def split: mstate.splits if_splits)
      moreover have "inv_count urls s'" using cn fl
        by (simp add: s' inv_count_def total_def)
      moreover have "inv_done s'" using dn WDone_update [of "workers s" k "WProbing u"]
        by (auto simp: s' inv_done_def)
      moreover have "inv_probe s'" using pr np1
        by (auto simp: s' inv_probe_def nprobing_append)
      ultimately show ?thesis by (simp add: inv_def)
    qed
  next
    case (WProbing u)
    have np: "producer s \<noteq> PNone" using sy nth_mem [OF K] WProbing by auto
    have nd: "closer s \<noteq> CDone" using sy alive_pos [OF K] WProbing by auto
    with sy have nc: "\<not> results_closed s" by simp
    from S K WProbing nc obtain r where
      s': "s' = s\<lparr>results := results s @ [r], workers := (workers s)[k := WIdle]\<rparr>"
      by (auto simp: worker_step_def split: option.splits if_splits)
    from alive_update [OF K, of WIdle] WProbing
    have al: "alive ((workers s)[k := WIdle]) = alive (workers s)" by simp
    from inflight_update [OF K, of WIdle] WProbing
    have fl: "inflight ((workers s)[k := WIdle]) + 1 = inflight (workers s)" by simp
    from nprobing_update [OF K, of WIdle] WProbing
    have np1: "nprobing ((workers s)[k := WIdle]) + 1 = nprobing (workers s)" by simp
    have "inv_sync c urls s'" using sy np nd al by (auto simp: s' inv_sync_def)
    moreover have "inv_phase c urls s'" using ph np nd
      by (auto simp: s' inv_phase_def split: mstate.splits if_splits)
    moreover have "inv_count urls s'" using cn fl
      by (auto simp: s' inv_count_def total_def)
    moreover have "inv_done s'" using dn WDone_update [of "workers s" k WIdle]
      by (auto simp: s' inv_done_def)
    moreover have "inv_probe s'" using pr np1
      by (auto simp: s' inv_probe_def nprobing_append)
    ultimately show ?thesis by (simp add: inv_def)
  next
    case WDone
    with S K show ?thesis by (simp add: worker_step_def)
  qed
qed

lemma inv_step:
  assumes "inv c urls s" and "step c urls e s = Some s'"
  shows "inv c urls s'"
proof (cases e)
  case EMain
  with assms show ?thesis by (auto simp: step_def split: if_splits intro: inv_main_step)
next
  case EProducer
  with assms show ?thesis by (auto simp: step_def split: if_splits intro: inv_producer_step)
next
  case EProducerCtx
  with assms show ?thesis by (auto simp: step_def split: if_splits intro: inv_producer_ctx_step)
next
  case ECloser
  with assms show ?thesis by (auto simp: step_def split: if_splits intro: inv_closer_step)
next
  case (EWorker k w)
  with assms show ?thesis by (auto simp: step_def split: if_splits intro: inv_worker_step)
next
  case ECancel
  with assms show ?thesis by (auto simp: step_def split: if_splits intro: inv_cancel_step)
qed

lemma inv_exec:
  "inv c urls s \<Longrightarrow> exec c urls sched s = Some s' \<Longrightarrow> inv c urls s'"
proof (induction sched arbitrary: s)
  case Nil
  then show ?case by simp
next
  case (Cons e es)
  then show ?case by (auto split: option.splits dest: inv_step)
qed

lemma inv_reachable: "exec c urls sched (init ctx) = Some s \<Longrightarrow> inv c urls s"
  by (rule inv_exec [OF inv_init])

lemma sum_list_update_nat:
  "k < length ws \<Longrightarrow>
     sum_list (map f (ws[k := w])) + f (ws ! k) = sum_list (map f ws) + (f w :: nat)"
proof (induction ws arbitrary: k)
  case Nil
  then show ?case by simp
next
  case (Cons a ws)
  then show ?case by (cases k) auto
qed

lemma mu_panic: "\<not> panicked s \<Longrightarrow> mu c urls (panic s) < mu c urls s"
  by (simp add: mu_def panic_def)

lemma mu_main_step:
  assumes I: "inv c urls s" and S: "main_step c urls s = Some s'"
  shows "mu c urls s' < mu c urls s"
proof -
  note ph = inv_parts(2) [OF I, unfolded inv_phase_def]
  show ?thesis
  proof (cases "main s")
    case (MSpawn i)
    with ph have "producer s = PNone" by simp
    with S MSpawn show ?thesis
      by (auto simp: main_step_def mu_def split: if_splits)
  next
    case MGoCloser
    with ph have "closer s = CNone" by simp
    with S MGoCloser show ?thesis by (auto simp: main_step_def mu_def)
  qed (use S in \<open>auto simp: main_step_def mu_def split: if_splits list.splits\<close>)
qed

lemma mu_producer_step:
  assumes "\<not> panicked s" and "producer_step urls s = Some s'"
  shows "mu c urls s' < mu c urls s"
proof (cases "producer s")
  case (PRun us)
  with assms show ?thesis
    by (cases us) (auto simp: producer_step_def mu_def panic_def split: if_splits)
qed (use assms in \<open>simp_all add: producer_step_def\<close>)

lemma mu_producer_ctx_step:
  assumes "\<not> panicked s" and "producer_ctx_step s = Some s'"
  shows "mu c urls s' < mu c urls s"
proof (cases "producer s")
  case (PRun us)
  with assms show ?thesis
    by (cases us) (auto simp: producer_ctx_step_def mu_def panic_def split: if_splits)
qed (use assms in \<open>simp_all add: producer_ctx_step_def\<close>)

lemma mu_closer_step:
  assumes "\<not> panicked s" and "closer_step s = Some s'"
  shows "mu c urls s' < mu c urls s"
  using assms
  by (cases "closer s") (auto simp: closer_step_def mu_def panic_def split: if_splits)

lemma mu_cancel_step:
  assumes "cancel_step s = Some s'"
  shows "mu c urls s' < mu c urls s"
  using assms by (auto simp: cancel_step_def mu_def split: if_splits)

lemma mu_worker_exit:
  assumes "\<not> panicked s" and "k < length (workers s)" and "workers s ! k \<noteq> WDone"
  shows "mu c urls (worker_exit k s) < mu c urls s"
proof (cases "wg s \<le> 0")
  case True
  with assms show ?thesis by (simp add: worker_exit_def mu_panic)
next
  case False
  from assms(3) have "0 < worker_mu (workers s ! k)" by (cases "workers s ! k") simp_all
  with sum_list_update_nat [OF assms(2), of worker_mu WDone]
  have "sum_list (map worker_mu ((workers s)[k := WDone])) < sum_list (map worker_mu (workers s))"
    by simp
  with False show ?thesis by (simp add: worker_exit_def mu_def)
qed

lemma mu_worker_step:
  assumes P: "\<not> panicked s" and S: "worker_step c urls k w s = Some s'"
  shows "mu c urls s' < mu c urls s"
proof -
  from S have K: "k < length (workers s)"
    by (simp add: worker_step_def split: if_splits)
  note U = sum_list_update_nat [OF K, of worker_mu]
  show ?thesis
  proof (cases "workers s ! k")
    case WIdle
    show ?thesis
    proof (cases "jobs s")
      case Nil
      with S K WIdle have "s' = worker_exit k s"
        by (simp add: worker_step_def split: if_splits)
      with mu_worker_exit [OF P K] WIdle show ?thesis by simp
    next
      case (Cons u js)
      with S K WIdle have s': "s' = s\<lparr>jobs := js, workers := (workers s)[k := WGot u]\<rparr>"
        by (simp add: worker_step_def)
      from U [of "WGot u"] WIdle Cons show ?thesis by (simp add: s' mu_def)
    qed
  next
    case (WGot u)
    show ?thesis
    proof (cases "cancelled s")
      case True
      with S K WGot have "s' = worker_exit k s" by (simp add: worker_step_def)
      with mu_worker_exit [OF P K] WGot show ?thesis by simp
    next
      case False
      with S K WGot have s': "s' = s\<lparr>workers := (workers s)[k := WProbing u],
          probes := Suc (probes s)\<rparr>"
        by (simp add: worker_step_def)
      from U [of "WProbing u"] WGot show ?thesis by (simp add: s' mu_def)
    qed
  next
    case (WProbing u)
    show ?thesis
    proof (cases "results_closed s")
      case True
      with S K WProbing have "s' = panic s"
        by (auto simp: worker_step_def split: option.splits)
      with mu_panic [OF P] show ?thesis by simp
    next
      case False
      with S K WProbing obtain r where
        s': "s' = s\<lparr>results := results s @ [r], workers := (workers s)[k := WIdle]\<rparr>"
        by (auto simp: worker_step_def split: option.splits if_splits)
      from U [of WIdle] WProbing show ?thesis by (simp add: s' mu_def)
    qed
  next
    case WDone
    with S K show ?thesis by (simp add: worker_step_def)
  qed
qed

lemma mu_step:
  "inv c urls s \<Longrightarrow> step c urls e s = Some s' \<Longrightarrow> mu c urls s' < mu c urls s"
  by (cases e)
     (auto simp: step_def split: if_splits
       intro: mu_main_step mu_producer_step mu_producer_ctx_step mu_closer_step
         mu_worker_step mu_cancel_step)

lemma exec_bound:
  "inv c urls s \<Longrightarrow> exec c urls sched s = Some s' \<Longrightarrow>
     length sched + mu c urls s' \<le> mu c urls s"
proof (induction sched arbitrary: s)
  case Nil
  then show ?case by simp
next
  case (Cons e es)
  then obtain s1 where 1: "step c urls e s = Some s1" and 2: "exec c urls es s1 = Some s'"
    by (auto split: option.splits)
  from Cons.prems(1) 1 have "inv c urls s1" by (rule inv_step)
  from Cons.IH [OF this 2] mu_step [OF Cons.prems(1) 1] show ?case by simp
qed

lemma checkURL_New_returns: "0 < timeout \<Longrightarrow> checkURL (New timeout mw) w ctx url \<noteq> None"
  by (auto simp: checkURL_def Let_def client_do_New Timeout_New
      split: option.splits net_reply.splits location.splits)

lemma inflight_pos: "k < length ws \<Longrightarrow> busy (ws ! k) \<Longrightarrow> 0 < inflight ws"
proof -
  assume "k < length ws" and "busy (ws ! k)"
  then have "ws ! k \<in> set (filter busy ws)" by simp
  then have "filter busy ws \<noteq> []" by (metis empty_iff empty_set)
  then show ?thesis by (simp add: inflight_def)
qed

lemma returned_iff: "inv c urls s \<Longrightarrow> returned s = None \<longleftrightarrow> main s \<noteq> MReturned"
  by (cases "main s") (auto simp: inv_def inv_phase_def)

text \<open>
  In a state in which the call has not returned, a goroutine other than a worker can
  move, or some worker can move whatever the world answers.  A worker inside a probe
  needs the probe to end in every world.
\<close>

lemma progress:
  assumes I: "inv c urls s" and M: "main s \<noteq> MReturned"
    and R: "\<And>k u w. k < length (workers s) \<Longrightarrow> workers s ! k = WProbing u \<Longrightarrow>
              checkURL c w (cancelled s) u \<noteq> None"
  shows "(\<exists>e s'. e \<noteq> ECancel \<and> (\<forall>k w. e \<noteq> EWorker k w) \<and> step c urls e s = Some s') \<or>
         (\<exists>k. \<forall>w. \<exists>s'. step c urls (EWorker k w) s = Some s')"
proof -
  note sy = inv_parts(1) [OF I, unfolded inv_sync_def]
  note ph = inv_parts(2) [OF I, unfolded inv_phase_def]
  note cn = inv_parts(3) [OF I, unfolded inv_count_def total_def]
  from sy have np: "\<not> panicked s" by simp
  have main_ok: "main_step c urls s \<noteq> None \<Longrightarrow> ?thesis"
  proof -
    assume "main_step c urls s \<noteq> None"
    then obtain s' where "main_step c urls s = Some s'" by auto
    with np have "EMain \<noteq> ECancel \<and> (\<forall>k w. EMain \<noteq> EWorker k w) \<and>
        step c urls EMain s = Some s'" by (simp add: step_def)
    then show ?thesis by blast
  qed
  show ?thesis
  proof (cases "main s")
    case MStart
    then show ?thesis by (intro main_ok) (simp add: main_step_def)
  next
    case (MSpawn i)
    then show ?thesis by (intro main_ok) (simp add: main_step_def)
  next
    case MGoCloser
    then show ?thesis by (intro main_ok) (simp add: main_step_def)
  next
    case MReturned
    with M show ?thesis by simp
  next
    case MCollect
    with ph have pn: "producer s \<noteq> PNone" and cl: "closer s \<noteq> CNone" by simp_all
    show ?thesis
    proof (cases "results s = [] \<and> \<not> results_closed s")
      case False
      with MCollect show ?thesis
        by (intro main_ok) (auto simp: main_step_def split: list.splits)
    next
      case True
      with sy cl have cw: "closer s = CWait" by (cases "closer s") simp_all
      show ?thesis
      proof (cases "wg s = 0")
        case True
        with cw \<open>results s = [] \<and> \<not> results_closed s\<close> np
        have "ECloser \<noteq> ECancel \<and> (\<forall>k w. ECloser \<noteq> EWorker k w) \<and>
              step c urls ECloser s = Some (s\<lparr>results_closed := True, closer := CDone\<rparr>)"
          by (simp add: step_def closer_step_def)
        then show ?thesis by blast
      next
        case False
        with sy have "0 < alive (workers s)" by simp
        from alive_pos_ex [OF this] obtain k where
          K: "k < length (workers s)" and A: "workers s ! k \<noteq> WDone" by blast
        have worker_ok: "(\<And>w. step c urls (EWorker k w) s \<noteq> None) \<Longrightarrow> ?thesis"
        proof -
          assume "\<And>w. step c urls (EWorker k w) s \<noteq> None"
          then have "\<forall>w. \<exists>s'. step c urls (EWorker k w) s = Some s'" by auto
          then show ?thesis by blast
        qed
        show ?thesis
        proof (cases "workers s ! k")
          case WDone
          with A show ?thesis by simp
        next
          case (WGot u)
          with K np have "\<And>w. step c urls (EWorker k w) s \<noteq> None"
            by (simp add: step_def worker_step_def)
          then show ?thesis by (rule worker_ok)
        next
          case (WProbing u)
          from inflight_pos [OF K] WProbing have "0 < inflight (workers s)" by simp
          with cn have room: "length (results s) < length urls" by simp
          have "step c urls (EWorker k w) s \<noteq> None" for w
          proof -
            from R [OF K WProbing, of w] obtain r where
              "checkURL c w (cancelled s) u = Some r" by auto
            with K np WProbing room True show ?thesis
              by (simp add: step_def worker_step_def)
          qed
          then show ?thesis by (rule worker_ok)
        next
          case WIdle
          show ?thesis
          proof (cases "jobs s = [] \<and> \<not> jobs_closed s")
            case False
            with K np WIdle have "\<And>w. step c urls (EWorker k w) s \<noteq> None"
              by (auto simp: step_def worker_step_def split: list.splits)
            then show ?thesis by (rule worker_ok)
          next
            case True
            with sy pn obtain us where P: "producer s = PRun us"
              by (cases "producer s") simp_all
            have "step c urls EProducer s \<noteq> None"
            proof (cases us)
              case Nil
              with P np True show ?thesis by (simp add: step_def producer_step_def)
            next
              case (Cons u us')
              with P cn have "0 < length urls" by (cases urls) auto
              with Cons P np True show ?thesis by (simp add: step_def producer_step_def)
            qed
            then obtain s' where "EProducer \<noteq> ECancel \<and> (\<forall>k w. EProducer \<noteq> EWorker k w) \<and>
                step c urls EProducer s = Some s'"
              by auto
            then show ?thesis by blast
          qed
        qed
      qed
    qed
  qed
qed

lemma cancelled_worker_exit: "cancelled (worker_exit k s) = cancelled s"
  by (simp add: worker_exit_def panic_def)

lemma cancelled_step:
  assumes "step c urls e s = Some s'"
  shows "cancelled s' \<longleftrightarrow> cancelled s \<or> e = ECancel"
proof (cases e)
  case EMain
  with assms show ?thesis
    by (auto simp: step_def main_step_def split: if_splits mstate.splits list.splits)
next
  case EProducer
  with assms show ?thesis
    by (auto simp: step_def producer_step_def panic_def
        split: if_splits pstate.splits list.splits)
next
  case EProducerCtx
  with assms show ?thesis
    by (auto simp: step_def producer_ctx_step_def panic_def
        split: if_splits pstate.splits list.splits)
next
  case ECloser
  with assms show ?thesis
    by (auto simp: step_def closer_step_def panic_def split: if_splits cstate.splits)
next
  case (EWorker k w)
  with assms show ?thesis
    by (auto simp: step_def worker_step_def panic_def cancelled_worker_exit
        split: if_splits wstate.splits list.splits option.splits)
next
  case ECancel
  with assms show ?thesis
    by (auto simp: step_def cancel_step_def split: if_splits)
qed

lemma cancelled_exec:
  "exec c urls sched s = Some s' \<Longrightarrow> cancelled s' \<longleftrightarrow> cancelled s \<or> ECancel \<in> set sched"
proof (induction sched arbitrary: s)
  case Nil
  then show ?case by simp
next
  case (Cons e es)
  then obtain s1 where 1: "step c urls e s = Some s1" and 2: "exec c urls es s1 = Some s'"
    by (auto split: option.splits)
  from Cons.IH [OF 2] cancelled_step [OF 1] show ?case by auto
qed

subsection \<open>Consequences\<close>

lemma workerCount_le: "workerCount c urls \<le> int (length urls)"
  by (simp add: workerCount_def)

lemma mu_init: "mu c urls (init ctx) \<le> 7 * length urls + 10"
proof -
  have "nat (workerCount c urls) \<le> length urls" using workerCount_le [of c urls] by simp
  then show ?thesis by (simp add: mu_def init_def)
qed

lemma exec_length:
  assumes "exec c urls sched (init ctx) = Some s"
  shows "length sched \<le> 7 * length urls + 10"
  using exec_bound [OF inv_init assms] mu_init [of c urls ctx] by simp

lemma progress_New:
  assumes "inv (New timeout mw) urls s" and "returned s = None" and "0 < timeout"
  shows "(\<exists>e s'. e \<noteq> ECancel \<and> (\<forall>k w. e \<noteq> EWorker k w) \<and>
            step (New timeout mw) urls e s = Some s') \<or>
         (\<exists>k. \<forall>w. \<exists>s'. step (New timeout mw) urls (EWorker k w) s = Some s')"
proof -
  from assms(1,2) have "main s \<noteq> MReturned" by (simp add: returned_iff)
  with assms(1) show ?thesis
    by (rule progress) (rule checkURL_New_returns [OF assms(3)])
qed

lemma progress_no_workers:
  assumes I: "inv c urls s" and R: "returned s = None" and W: "workers s = []"
  shows "\<exists>e s'. e \<noteq> ECancel \<and> (\<forall>k w. e \<noteq> EWorker k w) \<and> step c urls e s = Some s'"
proof -
  from I R have M: "main s \<noteq> MReturned" by (simp add: returned_iff)
  have "\<not> (\<exists>k. \<forall>w. \<exists>s'. step c urls (EWorker k w) s = Some s')"
    using W by (simp add: step_def worker_step_def)
  moreover have "(\<exists>e s'. e \<noteq> ECancel \<and> (\<forall>k w. e \<noteq> EWorker k w) \<and> step c urls e s = Some s') \<or>
         (\<exists>k. \<forall>w. \<exists>s'. step c urls (EWorker k w) s = Some s')"
    using I M by (rule progress) (simp add: W)
  ultimately show ?thesis by blast
qed

lemma returned_checkResults:
  assumes "inv c urls s" and "returned s = Some rs"
  shows "main s = MReturned" and "rs = checkResults s"
proof -
  from assms returned_iff [OF assms(1)] show m: "main s = MReturned" by auto
  with inv_parts(2) [OF assms(1)] assms(2) show "rs = checkResults s"
    by (simp add: inv_phase_def)
qed

lemma result_count_le:
  assumes I: "inv c urls s" and R: "returned s = Some rs"
  shows "length rs \<le> length urls"
  using inv_parts(3) [OF I] returned_checkResults(2) [OF I R]
  by (simp add: inv_count_def total_def)

lemma result_count_eq:
  assumes I: "inv c urls s" and R: "returned s = Some rs"
    and W: "1 \<le> maxWorkers c" and C: "\<not> cancelled s"
  shows "length rs = length urls"
proof -
  note sy = inv_parts(1) [OF I, unfolded inv_sync_def]
  note ph = inv_parts(2) [OF I, unfolded inv_phase_def]
  note cn = inv_parts(3) [OF I, unfolded inv_count_def total_def]
  note dn = inv_parts(4) [OF I, unfolded inv_done_def]
  note m = returned_checkResults [OF I R]
  show ?thesis
  proof (cases "workerCount c urls = 0")
    case True
    with W have "urls = []" by (simp add: workerCount_def split: if_splits)
    with result_count_le [OF I R] show ?thesis by simp
  next
    case False
    with W have pos: "0 < nat (workerCount c urls)"
      by (simp add: workerCount_def split: if_splits)
    from m(1) ph False have len: "length (workers s) = nat (workerCount c urls)"
      and cl: "closer s = CDone" and res: "results s = []" by simp_all
    from sy cl have al: "alive (workers s) = 0" by simp
    with pos len have "alive (workers s) < length (workers s)" by simp
    then have "WDone \<in> set (workers s)" by (simp add: alive_less_iff)
    with dn C have "jobs_closed s" and j: "jobs s = []" by simp_all
    with sy have p: "producer s = PDone" by simp
    from inflight_le_alive [of "workers s"] al have f: "inflight (workers s) = 0" by simp
    from cn C p j f res m(2) show ?thesis by simp
  qed
qed

lemma no_spawn_step:
  assumes "step c urls e s = Some s'" and "workers s = []" and "workerCount c urls \<le> 0"
  shows "workers s' = [] \<and> probes s' = probes s"
proof (cases e)
  case EMain
  with assms show ?thesis
    by (auto simp: step_def main_step_def split: if_splits mstate.splits list.splits)
next
  case EProducer
  with assms show ?thesis
    by (auto simp: step_def producer_step_def panic_def
        split: if_splits pstate.splits list.splits)
next
  case EProducerCtx
  with assms show ?thesis
    by (auto simp: step_def producer_ctx_step_def panic_def
        split: if_splits pstate.splits list.splits)
next
  case ECloser
  with assms show ?thesis
    by (auto simp: step_def closer_step_def panic_def split: if_splits cstate.splits)
next
  case (EWorker k w)
  with assms show ?thesis by (simp add: step_def worker_step_def split: if_splits)
next
  case ECancel
  with assms show ?thesis
    by (auto simp: step_def cancel_step_def split: if_splits)
qed

lemma no_spawn_exec:
  "exec c urls sched s = Some s' \<Longrightarrow> workers s = [] \<Longrightarrow> workerCount c urls \<le> 0 \<Longrightarrow>
     workers s' = [] \<and> probes s' = probes s"
proof (induction sched arbitrary: s)
  case Nil
  then show ?case by simp
next
  case (Cons e es)
  then obtain s1 where 1: "step c urls e s = Some s1" and 2: "exec c urls es s1 = Some s'"
    by (auto split: option.splits)
  from no_spawn_step [OF 1 Cons.prems(2,3)] Cons.IH [OF 2] Cons.prems(3)
  show ?case by simp
qed

lemma no_workers_run:
  assumes E: "exec c urls sched (init ctx) = Some s" and W: "workerCount c urls \<le> 0"
  shows "workers s = []" and "probes s = 0" and "\<And>rs. returned s = Some rs \<Longrightarrow> rs = []"
proof -
  from no_spawn_exec [OF E _ W] show w: "workers s = []" and p: "probes s = 0"
    by (simp_all add: init_def)
  note I = inv_reachable [OF E]
  fix rs assume "returned s = Some rs"
  from returned_checkResults(2) [OF I this] inv_parts(5) [OF I] p
  show "rs = []" by (simp add: inv_probe_def)
qed

lemma mu_init_no_workers:
  "workerCount c urls \<le> 0 \<Longrightarrow> mu c urls (init ctx) \<le> 5 * length urls + 10"
  by (simp add: mu_def init_def)

lemmas step_defs = step_def main_step_def producer_step_def producer_ctx_step_def closer_step_def
  worker_step_def worker_exit_def cancel_step_def panic_def init_def workerCount_def
  maxWorkers_New checkURL_def client_do_New Timeout_New world_ok_def url_error_def
  parse_error_def

lemma probes_worker_exit: "probes (worker_exit k s) = probes s"
  by (simp add: worker_exit_def panic_def)

lemma probes_step_cancelled:
  assumes "step c urls e s = Some s'" and "cancelled s"
  shows "probes s' = probes s"
proof (cases e)
  case EMain
  with assms show ?thesis
    by (auto simp: step_def main_step_def split: if_splits mstate.splits list.splits)
next
  case EProducer
  with assms show ?thesis
    by (auto simp: step_def producer_step_def panic_def
        split: if_splits pstate.splits list.splits)
next
  case EProducerCtx
  with assms show ?thesis
    by (auto simp: step_def producer_ctx_step_def panic_def
        split: if_splits pstate.splits list.splits)
next
  case ECloser
  with assms show ?thesis
    by (auto simp: step_def closer_step_def panic_def split: if_splits cstate.splits)
next
  case (EWorker k w)
  with assms show ?thesis
    by (auto simp: step_def worker_step_def panic_def probes_worker_exit
        split: if_splits wstate.splits list.splits option.splits)
next
  case ECancel
  with assms show ?thesis
    by (auto simp: step_def cancel_step_def split: if_splits)
qed

lemma observe_cancel_step:
  assumes I: "inv c urls s" and C: "cancelled s" and K: "k < length (workers s)"
    and G: "workers s ! k = WGot u" and S: "step c urls (EWorker k w) s = Some s'"
  shows "workers s' = (workers s)[k := WDone] \<and> results s' = results s"
proof -
  note sy = inv_parts(1) [OF I, unfolded inv_sync_def]
  from alive_pos [OF K] G sy have "0 < wg s" by simp
  with S C K G sy show ?thesis
    by (auto simp: step_def worker_step_def worker_exit_def)
qed

lemma finish_probe_step:
  assumes I: "inv c urls s" and K: "k < length (workers s)"
    and G: "workers s ! k = WProbing u" and S: "step c urls (EWorker k w) s = Some s'"
  shows "\<exists>r. checkURL c w (cancelled s) u = Some r \<and> results s' = results s @ [r]"
proof -
  note sy = inv_parts(1) [OF I, unfolded inv_sync_def]
  from alive_pos [OF K] G sy have "\<not> results_closed s" by auto
  with S K G sy show ?thesis
    by (auto simp: step_def worker_step_def split: option.splits if_splits)
qed

lemma checkURL_transport_failure:
  assumes "checkURL (New timeout mw) w ctx u = Some r"
    and "request_error w u = None" and "round_trip w timeout ctx u = NetFail m"
  shows "\<not> Available r \<and> StatusCode r = 0 \<and> Error r = ''request failed: '' @ m"
  using assms by (auto simp: checkURL_def client_do_New Timeout_New)

subsection \<open>No URL is invented, none is lost without cancellation\<close>

lemma sum_list_update_mset:
  "k < length ws \<Longrightarrow>
     sum_list (map f (ws[k := w])) + f (ws ! k) = sum_list (map f ws) + (f w :: 'a multiset)"
proof (induction ws arbitrary: k)
  case Nil
  then show ?case by simp
next
  case (Cons a ws)
  then show ?case by (cases k) (auto simp: ac_simps)
qed

lemma held_alive0: "alive ws = 0 \<Longrightarrow> sum_list (map held ws) = {#}"
proof (induction ws)
  case Nil
  then show ?case by simp
next
  case (Cons a ws)
  then show ?case by (cases a) (auto simp: alive_def split: if_splits)
qed

lemma urls_main_step:
  assumes I: "inv c urls s" and S: "main_step c urls s = Some s'"
  shows "urls_in urls s' = urls_in urls s"
proof (cases "main s")
  case (MSpawn i)
  with inv_parts(2) [OF I] have "producer s = PNone" by (simp add: inv_phase_def)
  with S MSpawn show ?thesis
    by (auto simp: main_step_def urls_in_def split: if_splits)
qed (use S in \<open>auto simp: main_step_def urls_in_def split: if_splits list.splits\<close>)

lemma urls_producer_step:
  assumes S: "producer_step urls s = Some s'"
  shows "urls_in urls s' = urls_in urls s"
proof (cases "producer s")
  case (PRun us)
  with S show ?thesis
    by (cases us) (auto simp: producer_step_def urls_in_def panic_def split: if_splits)
qed (use S in \<open>simp_all add: producer_step_def\<close>)

lemma urls_producer_ctx_step:
  assumes S: "producer_ctx_step s = Some s'"
  shows "cancelled s \<and> urls_in urls s' \<subseteq># urls_in urls s"
proof (cases "producer s")
  case (PRun us)
  with S show ?thesis
    by (cases us) (auto simp: producer_ctx_step_def urls_in_def panic_def split: if_splits)
qed (use S in \<open>simp_all add: producer_ctx_step_def\<close>)

lemma urls_closer_step:
  assumes S: "closer_step s = Some s'"
  shows "urls_in urls s' = urls_in urls s"
  using S by (cases "closer s") (auto simp: closer_step_def urls_in_def panic_def split: if_splits)

lemma urls_cancel_step:
  assumes S: "cancel_step s = Some s'"
  shows "urls_in urls s' = urls_in urls s"
  using S by (auto simp: cancel_step_def urls_in_def split: if_splits)

lemma urls_worker_exit:
  assumes K: "k < length (workers s)"
  shows "urls_in urls (worker_exit k s) \<subseteq># urls_in urls s \<and>
         (held (workers s ! k) = {#} \<longrightarrow> urls_in urls (worker_exit k s) = urls_in urls s)"
proof (cases "wg s \<le> 0")
  case True
  then show ?thesis by (simp add: worker_exit_def panic_def urls_in_def)
next
  case False
  from sum_list_update_mset [OF K, of held WDone]
  have "sum_list (map held (workers s)) =
        sum_list (map held ((workers s)[k := WDone])) + held (workers s ! k)" by simp
  with False show ?thesis by (simp add: worker_exit_def urls_in_def)
qed

lemma urls_worker_step:
  assumes S: "worker_step c urls k w s = Some s'"
  shows "urls_in urls s' \<subseteq># urls_in urls s \<and>
         (\<not> cancelled s \<longrightarrow> urls_in urls s' = urls_in urls s)"
proof -
  from S have K: "k < length (workers s)"
    by (simp add: worker_step_def split: if_splits)
  note U = sum_list_update_mset [OF K, of held]
  show ?thesis
  proof (cases "workers s ! k")
    case WIdle
    show ?thesis
    proof (cases "jobs s")
      case Nil
      with S K WIdle have "s' = worker_exit k s"
        by (simp add: worker_step_def split: if_splits)
      with urls_worker_exit [OF K, of urls] WIdle show ?thesis by simp
    next
      case (Cons u js)
      with S K WIdle have s': "s' = s\<lparr>jobs := js, workers := (workers s)[k := WGot u]\<rparr>"
        by (simp add: worker_step_def)
      from U [of "WGot u"] WIdle Cons show ?thesis by (simp add: s' urls_in_def)
    qed
  next
    case (WGot u)
    show ?thesis
    proof (cases "cancelled s")
      case True
      with S K WGot have "s' = worker_exit k s" by (simp add: worker_step_def)
      with urls_worker_exit [OF K, of urls] True show ?thesis by simp
    next
      case False
      with S K WGot have s': "s' = s\<lparr>workers := (workers s)[k := WProbing u],
          probes := Suc (probes s)\<rparr>"
        by (simp add: worker_step_def)
      from U [of "WProbing u"] WGot show ?thesis by (simp add: s' urls_in_def)
    qed
  next
    case (WProbing u)
    show ?thesis
    proof (cases "results_closed s")
      case True
      with S K WProbing have "s' = panic s"
        by (auto simp: worker_step_def split: option.splits)
      then show ?thesis by (simp add: panic_def urls_in_def)
    next
      case False
      with S K WProbing obtain r where r: "checkURL c w (cancelled s) u = Some r" and
        s': "s' = s\<lparr>results := results s @ [r], workers := (workers s)[k := WIdle]\<rparr>"
        by (auto simp: worker_step_def split: option.splits if_splits)
      from U [of WIdle] WProbing
      have "sum_list (map held (workers s)) =
            sum_list (map held ((workers s)[k := WIdle])) + {#u#}" by simp
      with checkURL_url [OF r] show ?thesis by (simp add: s' urls_in_def)
    qed
  next
    case WDone
    with S K show ?thesis by (simp add: worker_step_def)
  qed
qed

lemma urls_step:
  assumes I: "inv c urls s" and S: "step c urls e s = Some s'"
  shows "urls_in urls s' \<subseteq># urls_in urls s \<and>
         (\<not> cancelled s' \<longrightarrow> urls_in urls s' = urls_in urls s)"
proof (cases e)
  case EMain
  with S urls_main_step [OF I, of s'] show ?thesis by (simp add: step_def split: if_splits)
next
  case EProducer
  with S urls_producer_step [of urls s s'] show ?thesis by (simp add: step_def split: if_splits)
next
  case EProducerCtx
  with S urls_producer_ctx_step [of s s' urls] cancelled_step [OF S] show ?thesis
    by (simp add: step_def split: if_splits)
next
  case ECloser
  with S urls_closer_step [of s s' urls] show ?thesis by (simp add: step_def split: if_splits)
next
  case (EWorker k w)
  with S urls_worker_step [of c urls k w s s'] cancelled_step [OF S] show ?thesis
    by (simp add: step_def split: if_splits)
next
  case ECancel
  with S urls_cancel_step [of s s' urls] show ?thesis by (simp add: step_def split: if_splits)
qed

lemma urls_exec:
  "inv c urls s \<Longrightarrow> exec c urls sched s = Some s' \<Longrightarrow>
     urls_in urls s' \<subseteq># urls_in urls s \<and> (\<not> cancelled s' \<longrightarrow> urls_in urls s' = urls_in urls s)"
proof (induction sched arbitrary: s)
  case Nil
  then show ?case by simp
next
  case (Cons e es)
  then obtain s1 where 1: "step c urls e s = Some s1" and 2: "exec c urls es s1 = Some s'"
    by (auto split: option.splits)
  from Cons.prems(1) 1 have I1: "inv c urls s1" by (rule inv_step)
  from cancelled_exec [OF 2] have "\<not> cancelled s' \<Longrightarrow> \<not> cancelled s1" by simp
  with Cons.IH [OF I1 2] urls_step [OF Cons.prems(1) 1] show ?case
    by (auto intro: subset_mset.order_trans)
qed

lemma urls_init: "urls_in urls (init ctx) = mset urls"
  by (simp add: urls_in_def init_def)

lemma result_urls:
  assumes E: "exec (New timeout mw) urls sched (init ctx) = Some s"
    and R: "returned s = Some rs"
  shows "mset (map URL rs) \<subseteq># mset urls \<and>
         (1 \<le> mw \<and> \<not> cancelled s \<longrightarrow> mset (map URL rs) = mset urls)"
proof -
  note I = inv_reachable [OF E]
  note sy = inv_parts(1) [OF I, unfolded inv_sync_def]
  note ph = inv_parts(2) [OF I, unfolded inv_phase_def]
  note dn = inv_parts(4) [OF I, unfolded inv_done_def]
  note m = returned_checkResults [OF I R]
  from urls_exec [OF inv_init E] have
    sub: "urls_in urls s \<subseteq># mset urls" and
    eq: "\<not> cancelled s \<Longrightarrow> urls_in urls s = mset urls"
    by (simp_all add: urls_init)
  have "mset (map URL rs) \<subseteq># urls_in urls s" by (simp add: urls_in_def m(2))
  from this sub have 1: "mset (map URL rs) \<subseteq># mset urls" by (rule subset_mset.order_trans)
  have 2: "mset (map URL rs) = mset urls" if W: "1 \<le> mw" and C: "\<not> cancelled s"
  proof (cases "workerCount (New timeout mw) urls = 0")
    case True
    with W have "urls = []" by (simp add: workerCount_def maxWorkers_New split: if_splits)
    with 1 show ?thesis by simp
  next
    case False
    with W have pos: "0 < nat (workerCount (New timeout mw) urls)"
      by (simp add: workerCount_def maxWorkers_New split: if_splits)
    from m(1) ph False have len: "length (workers s) = nat (workerCount (New timeout mw) urls)"
      and cl: "closer s = CDone" and res: "results s = []" by simp_all
    from sy cl have al: "alive (workers s) = 0" by simp
    with pos len have "alive (workers s) < length (workers s)" by simp
    then have "WDone \<in> set (workers s)" by (simp add: alive_less_iff)
    with dn C have "jobs_closed s" and j: "jobs s = []" by simp_all
    with sy have p: "producer s = PDone" by simp
    from eq [OF C] p j res held_alive0 [OF al] m(2) show ?thesis
      by (simp add: urls_in_def)
  qed
  from 1 2 show ?thesis by blast
qed

section \<open>The probe: claims\<close>



text \<open>
  Claim C4, amended.  When no response is obtained, the result is not available, its
  status code is absent (0) and its error is not empty; this holds when the request
  cannot be built (a malformed target) and when \<^verbatim>\<open>client.Do\<close> fails (DNS failure,
  refused connection, expiry of the timeout, a done context).  When \<^verbatim>\<open>client.Do\<close>
  fails, the response time is the time from \<^verbatim>\<open>start\<close> to the failure, in whole
  milliseconds.
\<close>

theorem checkURL_failure:
  "(request_error w url = Some e \<longrightarrow>
      (\<exists>r. checkURL c w ctx url = Some r \<and> \<not> Available r \<and> StatusCode r = 0 \<and>
           Error r \<noteq> [])) \<and>
   (request_error w url = None \<and>
    client_do (client c) (round_trip w (Timeout (client c)) ctx) [] url = Some (n, DoErr e) \<longrightarrow>
      (\<exists>r. checkURL c w ctx url = Some r \<and> \<not> Available r \<and> StatusCode r = 0 \<and>
           Error r \<noteq> [] \<and>
           ResponseTimeMs r = Milliseconds (clock_done w - clock_start w)))"
  by (simp add: checkURL_def)

theorem checkURL_failure_witness:
  "(\<exists>r. checkURL (New 5000 10) world_ok False ''http://down'' = Some r \<and> \<not> Available r \<and>
        StatusCode r = 0 \<and> Error r \<noteq> [] \<and> ResponseTimeMs r = 42) \<and>
   (\<exists>r. checkURL (New 5000 10) world_ok False ''://invalid-url'' = Some r \<and> \<not> Available r \<and>
        StatusCode r = 0 \<and> Error r \<noteq> [])"
proof -
  have a: "request_error world_ok ''http://down'' = None"
    and a': "request_error world_ok ''://invalid-url'' =
      Some (parse_error ''://invalid-url'' ''missing protocol scheme'')"
    by (simp_all add: world_ok_def)
  have b: "client_do (client (New 5000 10))
             (round_trip world_ok (Timeout (client (New 5000 10))) False) [] ''http://down'' =
           Some ([''http://down''], DoErr (url_error ''http://down'' ''connection refused''))"
    by (simp add: client_do_New world_ok_def)
  have c: "Milliseconds (clock_done world_ok - clock_start world_ok) = 42"
    by (simp add: Milliseconds_def world_ok_def)
  from checkURL_failure [of world_ok "''http://down''"
      "url_error ''http://down'' ''connection refused''" "New 5000 10" False "[''http://down'']"]
    checkURL_failure [of world_ok "''://invalid-url''"
      "parse_error ''://invalid-url'' ''missing protocol scheme''" "New 5000 10" False "[]"]
    a a' b c
  show ?thesis by auto
qed

text \<open>
  Claim C4 as stated fails for a malformed target: \<^verbatim>\<open>checkURL\<close> returns before it
  reads the clock, so the response time stays 0 although 3 ms have passed between
  \<^verbatim>\<open>start\<close> and the failure of \<^verbatim>\<open>http.NewRequestWithContext\<close>.
\<close>

theorem checkURL_malformed_counterexample:
  "map_option ResponseTimeMs
     (checkURL (New 5000 10) (world_ok\<lparr>clock_request := 3001000\<rparr>) False ''://invalid-url'') =
     Some 0 \<and>
   Milliseconds (clock_request (world_ok\<lparr>clock_request := 3001000\<rparr>) -
                 clock_start (world_ok\<lparr>clock_request := 3001000\<rparr>)) = 3"
  by (simp add: checkURL_def world_ok_def Milliseconds_def)

text \<open>
  Claim C8, amended.  The client built by \<^verbatim>\<open>New\<close> never follows a redirect: whenever
  \<^verbatim>\<open>client.Do\<close> returns it has sent exactly one request, the one for the URL given,
  and with a positive timeout it always returns.  When the answer is a response, that
  response is what \<^verbatim>\<open>client.Do\<close> returns and \<^verbatim>\<open>checkURL\<close> records its status code
  without error, for a redirect too, unless the answer is a redirect whose
  \<^verbatim>\<open>Location\<close> header cannot be parsed: then \<^verbatim>\<open>client.Do\<close> returns an error and the
  result is a failed request without status code.
\<close>

theorem New_single_request:
  "(\<forall>reqs res. client_do (client (New timeout mw)) transport [] url = Some (reqs, res) \<longrightarrow>
      reqs = [url]) \<and>
   (0 < timeout \<longrightarrow>
      (\<exists>res. client_do (client (New timeout mw)) transport [] url = Some ([url], res))) \<and>
   (request_error w url = None \<and> round_trip w timeout ctx url = NetResp code loc \<and>
    \<not> (redirect_status code \<and> (\<exists>e. loc = BadLocation e)) \<longrightarrow>
      client_do (client (New timeout mw)) (round_trip w timeout ctx) [] url =
        Some ([url], DoResp code) \<and>
      (\<exists>r. checkURL (New timeout mw) w ctx url = Some r \<and> StatusCode r = code \<and>
           Error r = [])) \<and>
   (request_error w url = None \<and> round_trip w timeout ctx url = NetResp code (BadLocation e) \<and>
    redirect_status code \<longrightarrow>
      client_do (client (New timeout mw)) (round_trip w timeout ctx) [] url =
        Some ([url], DoErr e) \<and>
      (\<exists>r. checkURL (New timeout mw) w ctx url = Some r \<and> StatusCode r = 0 \<and>
           \<not> Available r \<and> Error r = ''request failed: '' @ e))"
proof -
  have 1: "\<forall>reqs res. client_do (client (New timeout mw)) transport [] url = Some (reqs, res) \<longrightarrow>
      reqs = [url]"
    by (auto simp: client_do_New split: net_reply.splits location.splits if_splits)
  have 2: "0 < timeout \<longrightarrow>
      (\<exists>res. client_do (client (New timeout mw)) transport [] url = Some ([url], res))"
    by (auto simp: client_do_New split: net_reply.splits location.splits)
  have 3: "request_error w url = None \<and> round_trip w timeout ctx url = NetResp code loc \<and>
    \<not> (redirect_status code \<and> (\<exists>e. loc = BadLocation e)) \<longrightarrow>
      client_do (client (New timeout mw)) (round_trip w timeout ctx) [] url =
        Some ([url], DoResp code) \<and>
      (\<exists>r. checkURL (New timeout mw) w ctx url = Some r \<and> StatusCode r = code \<and>
           Error r = [])"
    by (cases loc) (auto simp: client_do_New checkURL_def Timeout_New)
  have 4: "request_error w url = None \<and>
    round_trip w timeout ctx url = NetResp code (BadLocation e) \<and> redirect_status code \<longrightarrow>
      client_do (client (New timeout mw)) (round_trip w timeout ctx) [] url =
        Some ([url], DoErr e) \<and>
      (\<exists>r. checkURL (New timeout mw) w ctx url = Some r \<and> StatusCode r = 0 \<and>
           \<not> Available r \<and> Error r = ''request failed: '' @ e)"
    by (auto simp: client_do_New checkURL_def Timeout_New)
  from 1 2 3 4 show ?thesis by blast
qed

theorem New_single_request_witness:
  "client_do (client (New 5000 10)) (round_trip world_ok 5000 False) [] ''http://moved'' =
     Some ([''http://moved''], DoResp 301) \<and>
   (\<exists>r. checkURL (New 5000 10) world_ok False ''http://moved'' = Some r \<and> StatusCode r = 301 \<and>
        Error r = []) \<and>
   (\<exists>r. checkURL (New 5000 10) world_ok False ''http://badloc'' = Some r \<and> StatusCode r = 0 \<and>
        \<not> Available r)"
proof -
  have a: "request_error world_ok ''http://moved'' = None \<and>
      round_trip world_ok 5000 False ''http://moved'' = NetResp 301 (Location ''http://ok'') \<and>
      \<not> (redirect_status 301 \<and> (\<exists>e. Location ''http://ok'' = BadLocation e))"
    by (simp add: world_ok_def)
  have b: "request_error world_ok ''http://badloc'' = None \<and>
      round_trip world_ok 5000 False ''http://badloc'' =
        NetResp 301 (BadLocation (url_error ''http://badloc'' ''failed to parse Location header'')) \<and>
      redirect_status 301"
    by (simp add: world_ok_def redirect_status_def)
  note t = New_single_request [of 5000 10 "round_trip world_ok 5000 False" "''http://moved''"
      world_ok False 301 "Location ''http://ok''" "[]", THEN conjunct2, THEN conjunct2,
      THEN conjunct1, rule_format, OF a]
  note u = New_single_request [of 5000 10 "round_trip world_ok 5000 False" "''http://badloc''"
      world_ok False 301 NoLocation
      "url_error ''http://badloc'' ''failed to parse Location header''", THEN conjunct2,
      THEN conjunct2, THEN conjunct2, rule_format, OF b]
  from t have 1:
    "client_do (client (New 5000 10)) (round_trip world_ok 5000 False) [] ''http://moved'' =
       Some ([''http://moved''], DoResp 301)"
    and 2: "\<exists>r. checkURL (New 5000 10) world_ok False ''http://moved'' = Some r \<and>
       StatusCode r = 301 \<and> Error r = []"
    by (rule conjunct1, rule conjunct2)
  from u have "\<exists>r. checkURL (New 5000 10) world_ok False ''http://badloc'' = Some r \<and>
       StatusCode r = 0 \<and> \<not> Available r \<and>
       Error r = ''request failed: '' @
         url_error ''http://badloc'' ''failed to parse Location header''"
    by (rule conjunct2)
  then have 3: "\<exists>r. checkURL (New 5000 10) world_ok False ''http://badloc'' = Some r \<and>
       StatusCode r = 0 \<and> \<not> Available r"
    by blast
  from 1 2 3 show ?thesis by blast
qed

text \<open>
  Claim C8 as stated fails for a redirect whose \<^verbatim>\<open>Location\<close> header cannot be parsed:
  the server answers 301, but \<^verbatim>\<open>client.Do\<close> returns an error and no response, so the
  status code recorded is 0.
\<close>

theorem New_bad_location_counterexample:
  "round_trip world_ok 5000 False ''http://badloc'' =
     NetResp 301 (BadLocation (url_error ''http://badloc'' ''failed to parse Location header'')) \<and>
   map_option StatusCode (checkURL (New 5000 10) world_ok False ''http://badloc'') = Some 0 \<and>
   map_option Available (checkURL (New 5000 10) world_ok False ''http://badloc'') = Some False"
  by (simp add: checkURL_def client_do_New Timeout_New world_ok_def redirect_status_def)

text \<open>
  Claim C10.  Every result of \<^verbatim>\<open>checkURL\<close>: if it is available, its status code lies
  in [200, 400) and its error is empty; if its error is not empty, it is not available
  and its status code is 0.
\<close>

theorem checkURL_invariant:
  assumes "checkURL c w ctx url = Some r"
  shows "(Available r \<longrightarrow> 200 \<le> StatusCode r \<and> StatusCode r < 400 \<and> Error r = []) \<and>
         (Error r \<noteq> [] \<longrightarrow> \<not> Available r \<and> StatusCode r = 0)"
  using assms
  by (auto simp: checkURL_def Let_def split: option.splits do_result.splits)

theorem checkURL_invariant_witness:
  "checkURL (New 5000 10) world_ok False ''http://ok'' =
     Some \<lparr>CheckedAt = 0, URL = ''http://ok'', Error = [], ResponseTimeMs = 42,
           StatusCode = 200, Available = True\<rparr> \<and>
   200 \<le> (200::int) \<and> (200::int) < 400 \<and>
   checkURL (New 5000 10) world_ok True ''http://ok'' =
     Some \<lparr>CheckedAt = 0, URL = ''http://ok'',
           Error = ''request failed: '' @ url_error ''http://ok'' ''context canceled'',
           ResponseTimeMs = 42, StatusCode = 0, Available = False\<rparr>"
proof -
  have a: "checkURL (New 5000 10) world_ok False ''http://ok'' =
     Some \<lparr>CheckedAt = 0, URL = ''http://ok'', Error = [], ResponseTimeMs = 42,
           StatusCode = 200, Available = True\<rparr>"
    by (simp add: checkURL_def world_ok_def client_do_New Timeout_New Milliseconds_def)
  have b: "checkURL (New 5000 10) world_ok True ''http://ok'' =
     Some \<lparr>CheckedAt = 0, URL = ''http://ok'',
           Error = ''request failed: '' @ url_error ''http://ok'' ''context canceled'',
           ResponseTimeMs = 42, StatusCode = 0, Available = False\<rparr>"
    by (simp add: checkURL_def world_ok_def client_do_New Timeout_New Milliseconds_def)
  from checkURL_invariant [OF a] checkURL_invariant [OF b] a b show ?thesis
    by (simp add: url_error_def)
qed

section \<open>CheckURLs: claims\<close>

text \<open>
  In the theorems below a run is a schedule that the system can follow from the initial
  state, \<open>exec \<dots> sched (init ctx) = Some s\<close>; the call has returned in \<open>s\<close>
  when \<open>returned s\<close> is not \<open>None\<close>.  That the call returns is stated in two
  parts: a run has at most a fixed number of steps, and in a state in which the call
  has not returned some goroutine can move, by a step that is not the context becoming
  done and that does not depend on what the world answers.  So every run can be
  continued, under any scheduler and in any world, and only up to the return.
\<close>

text \<open>
  Claim C1, amended.  Every run of \<^verbatim>\<open>CheckURLs\<close> has at most \<open>7 n + 10\<close> steps for
  \<open>n\<close> URLs and never panics.  When the timeout of the client is positive the run is
  never stuck before the call returns, whatever the world answers, so the call always
  returns; without a deadline (a timeout of 0 or less) a probe may wait for ever on a
  server that never answers.  The slice returned is never longer than the URL list, and
  the URLs of its results are among the URLs given (as multisets); when the checker has
  at least one worker and the context is not done by the time the call returns, it has
  exactly the length of the URL list and the URLs of its results are exactly the URLs
  given, duplicates included.
\<close>

theorem CheckURLs_result_count:
  assumes "exec (New timeout mw) urls sched (init ctx) = Some s"
  shows "length sched \<le> 7 * length urls + 10 \<and>
         \<not> panicked s \<and>
         (0 < timeout \<and> returned s = None \<longrightarrow>
            (\<exists>e s'. e \<noteq> ECancel \<and> (\<forall>k w. e \<noteq> EWorker k w) \<and>
                    step (New timeout mw) urls e s = Some s') \<or>
            (\<exists>k. \<forall>w. \<exists>s'. step (New timeout mw) urls (EWorker k w) s = Some s')) \<and>
         (\<forall>rs. returned s = Some rs \<longrightarrow>
            length rs \<le> length urls \<and> mset (map URL rs) \<subseteq># mset urls \<and>
            (1 \<le> mw \<and> \<not> cancelled s \<longrightarrow>
               length rs = length urls \<and> mset (map URL rs) = mset urls))"
proof -
  note I = inv_reachable [OF assms]
  from inv_parts(1) [OF I] have 1: "\<not> panicked s" by (simp add: inv_sync_def)
  have 2: "0 < timeout \<and> returned s = None \<longrightarrow>
            (\<exists>e s'. e \<noteq> ECancel \<and> (\<forall>k w. e \<noteq> EWorker k w) \<and>
                    step (New timeout mw) urls e s = Some s') \<or>
            (\<exists>k. \<forall>w. \<exists>s'. step (New timeout mw) urls (EWorker k w) s = Some s')"
    using progress_New [OF I] by blast
  have 3: "\<forall>rs. returned s = Some rs \<longrightarrow>
            length rs \<le> length urls \<and> mset (map URL rs) \<subseteq># mset urls \<and>
            (1 \<le> mw \<and> \<not> cancelled s \<longrightarrow>
               length rs = length urls \<and> mset (map URL rs) = mset urls)"
    using result_count_le [OF I] result_count_eq [OF I] result_urls [OF assms]
    by (auto simp: maxWorkers_New)
  from exec_length [OF assms] 1 2 3 show ?thesis by blast
qed

theorem CheckURLs_result_count_witness:
  "length sched_two \<le> 7 * length [''http://ok'', ''http://gone''] + 10 \<and>
   map_option (map URL) (CheckURLs (New 5000 1) False [''http://ok'', ''http://gone''] sched_two) =
     Some [''http://ok'', ''http://gone''] \<and>
   (\<exists>s. exec (New 5000 1) [''http://silent''] sched_probing (init False) = Some s \<and>
        workers s = [WProbing ''http://silent''] \<and> returned s = None \<and>
        (\<forall>w. \<exists>s'. step (New 5000 1) [''http://silent''] (EWorker 0 w) s = Some s'))"
proof -
  obtain s where e: "exec (New 5000 1) [''http://ok'', ''http://gone''] sched_two (init False) = Some s"
    and r: "map_option (map URL) (returned s) = Some [''http://ok'', ''http://gone'']"
    and c: "\<not> cancelled s"
    by (simp add: sched_two_def step_defs)
  from CheckURLs_result_count [OF e] r c have 1:
    "length sched_two \<le> 7 * length [''http://ok'', ''http://gone''] + 10 \<and>
     map_option (map URL) (CheckURLs (New 5000 1) False [''http://ok'', ''http://gone''] sched_two) =
       Some [''http://ok'', ''http://gone'']"
    by (auto simp: CheckURLs_def e)
  obtain p where ep: "exec (New 5000 1) [''http://silent''] sched_probing (init False) = Some p"
    and wp: "workers p = [WProbing ''http://silent'']" and rp: "returned p = None"
    and mp: "main p = MCollect" "results p = []" "\<not> results_closed p"
    and op: "producer p = PDone" "closer p = CWait" "wg p = 1" "\<not> panicked p"
    by (simp add: sched_probing_def step_defs)
  have others: "step (New 5000 1) [''http://silent''] e p = None"
    if "e \<noteq> ECancel" "\<forall>k w. e \<noteq> EWorker k w" for e
    using that mp op by (cases e) (simp_all add: step_defs)
  have only0: "step (New 5000 1) [''http://silent''] (EWorker k w) p = None" if "k \<noteq> 0" for k w
    using that wp op by (simp add: step_def worker_step_def)
  from CheckURLs_result_count [OF ep] rp have
    "(\<exists>e s'. e \<noteq> ECancel \<and> (\<forall>k w. e \<noteq> EWorker k w) \<and>
        step (New 5000 1) [''http://silent''] e p = Some s') \<or>
     (\<exists>k. \<forall>w. \<exists>s'. step (New 5000 1) [''http://silent''] (EWorker k w) p = Some s')"
    by simp
  with others have "\<exists>k. \<forall>w. \<exists>s'. step (New 5000 1) [''http://silent''] (EWorker k w) p = Some s'"
    by fastforce
  then obtain k where k: "\<forall>w. \<exists>s'. step (New 5000 1) [''http://silent''] (EWorker k w) p = Some s'"
    by blast
  with only0 have "k = 0" by (cases "k = 0") auto
  with k have "\<forall>w. \<exists>s'. step (New 5000 1) [''http://silent''] (EWorker 0 w) p = Some s'" by simp
  with ep wp rp have 2:
    "\<exists>s. exec (New 5000 1) [''http://silent''] sched_probing (init False) = Some s \<and>
        workers s = [WProbing ''http://silent''] \<and> returned s = None \<and>
        (\<forall>w. \<exists>s'. step (New 5000 1) [''http://silent''] (EWorker 0 w) s = Some s')"
    by (intro exI [of _ p]) simp
  from 1 2 show ?thesis by simp
qed

text \<open>
  Without a deadline the same run is stuck in a world that stays silent: the probe
  does not end, and no other goroutine can move.
\<close>

lemma no_deadline_example:
  "\<exists>s. exec (New 0 1) [''http://silent''] sched_probing (init False) = Some s \<and>
       returned s = None \<and>
       step (New 0 1) [''http://silent''] (EWorker 0 world_ok) s = None \<and>
       step (New 0 1) [''http://silent''] EMain s = None \<and>
       step (New 0 1) [''http://silent''] EProducer s = None \<and>
       step (New 0 1) [''http://silent''] EProducerCtx s = None \<and>
       step (New 0 1) [''http://silent''] ECloser s = None"
  by (simp add: sched_probing_def step_defs)

text \<open>
  Claim C1 as stated fails when the context becomes done during the batch: one worker,
  two URLs, and the context done after the first probe; the worker receives the second
  URL, finds the context done and returns, and the call returns one result for two URLs.
\<close>

theorem CheckURLs_cancel_counterexample:
  "map_option length
     (CheckURLs (New 5000 1) False [''http://ok'', ''http://gone''] sched_cancel_mid) = Some 1 \<and>
   length [''http://ok'', ''http://gone''] = 2"
  by (simp add: CheckURLs_def sched_cancel_mid_def step_defs)

text \<open>
  Claim C2, amended.  No run of \<^verbatim>\<open>CheckURLs\<close> fails as a whole: the function has no
  error result, and no reachable state is a panic, whatever the worker limit and the
  URL list.  With a worker limit below 1 and a non-empty URL list the call starts no
  probe, is never stuck, and returns the empty slice.
\<close>

theorem CheckURLs_never_fails:
  assumes "exec (New timeout mw) urls sched (init ctx) = Some s"
  shows "\<not> panicked s \<and>
         (mw < 1 \<and> urls \<noteq> [] \<longrightarrow>
            probes s = 0 \<and>
            (returned s = None \<longrightarrow> (\<exists>e s'. e \<noteq> ECancel \<and> step (New timeout mw) urls e s = Some s')) \<and>
            (\<forall>rs. returned s = Some rs \<longrightarrow> rs = []))"
proof -
  note I = inv_reachable [OF assms]
  from inv_parts(1) [OF I] have np: "\<not> panicked s" by (simp add: inv_sync_def)
  show ?thesis
  proof (cases "mw < 1")
    case True
    then have W: "workerCount (New timeout mw) urls \<le> 0"
      by (simp add: workerCount_def maxWorkers_New)
    from np no_workers_run [OF assms W]
      progress_no_workers [OF I _ no_workers_run(1) [OF assms W]] show ?thesis by blast
  next
    case False
    with np show ?thesis by simp
  qed
qed

theorem CheckURLs_never_fails_witness:
  "map_option (\<lambda>s. (returned s, panicked s, probes s))
     (exec (New 5000 (- 1)) [''http://ok''] sched_no_workers (init True)) =
     Some (Some [], False, 0) \<and>
   (\<exists>e s'. e \<noteq> ECancel \<and> step (New 5000 (- 1)) [''http://ok''] e (init True) = Some s')"
proof -
  obtain s where e: "exec (New 5000 (- 1)) [''http://ok''] sched_no_workers (init True) = Some s"
    and r: "returned s \<noteq> None"
    by (simp add: sched_no_workers_def step_defs)
  have e0: "exec (New 5000 (- 1)) [''http://ok''] [] (init True) = Some (init True)"
    and r0: "returned (init True) = None"
    by (simp_all add: init_def)
  from CheckURLs_never_fails [OF e] CheckURLs_never_fails [OF e0] r r0 show ?thesis
    by (auto simp: e)
qed

text \<open>
  Claim C2 as stated fails: with a worker limit of 0 and one URL the first step of the
  call is an ordinary return of the empty slice, and nothing has panicked.
\<close>

theorem CheckURLs_config_counterexample:
  "map_option (\<lambda>s. (returned s, panicked s))
     (exec (New 5000 0) [''http://ok''] [EMain] (init False)) = Some (Some [], False)"
  by (simp add: step_defs)

text \<open>
  Claim C5, amended.  In every state of a run the workers inside a probe are at most the
  workers that have not returned, these are at most the workers spawned, and these are at
  most \<^verbatim>\<open>workerCount\<close> (none when it is negative).  Once the spawn loop is over the
  number of workers spawned is \<^verbatim>\<open>workerCount\<close> exactly, which for a worker limit of at
  least 0 is the minimum of the limit and the number of URLs.  With a limit of at
  least 1 and a non-empty URL list, \<^verbatim>\<open>workerCount\<close> is at least 1.
\<close>

theorem CheckURLs_worker_count:
  assumes "exec (New timeout mw) urls sched (init ctx) = Some s"
  shows "nprobing (workers s) \<le> alive (workers s) \<and>
         alive (workers s) \<le> length (workers s) \<and>
         length (workers s) \<le> nat (workerCount (New timeout mw) urls) \<and>
         (main s = MGoCloser \<or> main s = MCollect \<or> main s = MReturned \<longrightarrow>
            length (workers s) = nat (workerCount (New timeout mw) urls)) \<and>
         (0 \<le> mw \<longrightarrow> int (nat (workerCount (New timeout mw) urls)) = min mw (int (length urls))) \<and>
         (1 \<le> mw \<and> urls \<noteq> [] \<longrightarrow> 1 \<le> workerCount (New timeout mw) urls)"
proof -
  note I = inv_reachable [OF assms]
  note sy = inv_parts(1) [OF I, unfolded inv_sync_def]
  note ph = inv_parts(2) [OF I, unfolded inv_phase_def]
  have 1: "nprobing (workers s) \<le> alive (workers s)"
    using nprobing_le_inflight [of "workers s"] inflight_le_alive [of "workers s"] by simp
  have 2: "main s = MGoCloser \<or> main s = MCollect \<or> main s = MReturned \<longrightarrow>
            length (workers s) = nat (workerCount (New timeout mw) urls)"
    using ph by (auto split: if_splits)
  have 3: "0 \<le> mw \<longrightarrow> int (nat (workerCount (New timeout mw) urls)) = min mw (int (length urls))"
    by (simp add: workerCount_def maxWorkers_New)
  have 4: "1 \<le> mw \<and> urls \<noteq> [] \<longrightarrow> 1 \<le> workerCount (New timeout mw) urls"
    by (cases urls) (simp_all add: workerCount_def maxWorkers_New)
  from 1 2 3 4 sy alive_le_length [of "workers s"] show ?thesis by simp
qed

theorem CheckURLs_worker_count_witness:
  "map_option (\<lambda>s. length (workers s))
     (exec (New 5000 1) [''http://ok'', ''http://gone''] sched_two (init False)) = Some 1 \<and>
   min 1 (int (length [''http://ok'', ''http://gone''])) = 1"
proof -
  obtain s where e: "exec (New 5000 1) [''http://ok'', ''http://gone''] sched_two (init False) = Some s"
    and r: "main s = MReturned"
    by (simp add: sched_two_def step_defs)
  from CheckURLs_worker_count [OF e] r show ?thesis
    by (auto simp: e workerCount_def maxWorkers_New)
qed

text \<open>
  Claim C5 as stated fails for a negative worker limit: with a limit of -1 and one URL
  the call returns having spawned no worker, while the minimum of the limit and the
  number of URLs is -1.
\<close>

theorem CheckURLs_negative_counterexample:
  "map_option (\<lambda>s. (main s, int (length (workers s))))
     (exec (New 5000 (- 1)) [''http://ok''] sched_no_workers (init False)) = Some (MReturned, 0) \<and>
   min (maxWorkers (New 5000 (- 1))) (int (length [''http://ok''])) = - 1"
  by (simp add: sched_no_workers_def step_defs)

text \<open>
  Claim C6, amended.  For the empty URL list, whatever the timeout, the worker limit
  and the state of the context: no worker is ever spawned and no probe started, the run
  has at most 10 steps and is never stuck before the call returns (a goroutine other
  than a worker can move), and the slice returned is empty.  With a worker limit of at
  least 0 the call returns at its first step, before any goroutine is started.  With a
  negative limit it does not: it returns only after the closing goroutine has closed
  \<^verbatim>\<open>results\<close>.
\<close>

theorem CheckURLs_empty:
  assumes "exec (New timeout mw) [] sched (init ctx) = Some s"
  shows "workers s = [] \<and> probes s = 0 \<and> \<not> panicked s \<and> length sched \<le> 10 \<and>
         (returned s = None \<longrightarrow>
            (\<exists>e s'. e \<noteq> ECancel \<and> (\<forall>k w. e \<noteq> EWorker k w) \<and>
                    step (New timeout mw) [] e s = Some s')) \<and>
         (\<forall>rs. returned s = Some rs \<longrightarrow> rs = []) \<and>
         (0 \<le> mw \<longrightarrow>
            step (New timeout mw) [] EMain (init ctx) =
              Some ((init ctx)\<lparr>main := MReturned, returned := Some []\<rparr>)) \<and>
         (mw < 0 \<and> returned s \<noteq> None \<longrightarrow> closer s = CDone \<and> results_closed s)"
proof -
  note I = inv_reachable [OF assms]
  note sy = inv_parts(1) [OF I, unfolded inv_sync_def]
  note ph = inv_parts(2) [OF I, unfolded inv_phase_def]
  have W: "workerCount (New timeout mw) [] \<le> 0"
    by (simp add: workerCount_def maxWorkers_New)
  from sy have 1: "\<not> panicked s" by simp
  from exec_bound [OF inv_init assms] mu_init_no_workers [OF W, of ctx]
  have 2: "length sched \<le> 10" by simp
  have 3: "0 \<le> mw \<longrightarrow>
            step (New timeout mw) [] EMain (init ctx) =
              Some ((init ctx)\<lparr>main := MReturned, returned := Some []\<rparr>)"
    by (simp add: step_def main_step_def workerCount_def maxWorkers_New init_def)
  have 4: "mw < 0 \<and> returned s \<noteq> None \<longrightarrow> closer s = CDone \<and> results_closed s"
  proof
    assume a: "mw < 0 \<and> returned s \<noteq> None"
    then have n: "workerCount (New timeout mw) [] \<noteq> 0"
      by (simp add: workerCount_def maxWorkers_New)
    from a returned_iff [OF I] have "main s = MReturned" by simp
    with ph n have "closer s = CDone" by simp
    with sy show "closer s = CDone \<and> results_closed s" by simp
  qed
  have 5: "returned s = None \<longrightarrow>
            (\<exists>e s'. e \<noteq> ECancel \<and> (\<forall>k w. e \<noteq> EWorker k w) \<and>
                    step (New timeout mw) [] e s = Some s')"
    using progress_no_workers [OF I _ no_workers_run(1) [OF assms W]] by blast
  from 1 2 3 4 5 no_workers_run [OF assms W] show ?thesis by blast
qed

theorem CheckURLs_empty_witness:
  "CheckURLs (New 5000 (- 3)) False [] sched_empty = Some [] \<and>
   map_option results_closed (exec (New 5000 (- 3)) [] sched_empty (init False)) = Some True \<and>
   step (New 5000 10) [] EMain (init True) =
     Some ((init True)\<lparr>main := MReturned, returned := Some []\<rparr>) \<and>
   (\<exists>e s'. e \<noteq> ECancel \<and> (\<forall>k w. e \<noteq> EWorker k w) \<and>
      step (New 5000 (- 3)) [] e (init False) = Some s')"
proof -
  obtain s where e: "exec (New 5000 (- 3)) [] sched_empty (init False) = Some s"
    and r: "returned s \<noteq> None"
    by (simp add: sched_empty_def step_defs)
  have e0: "exec (New 5000 (- 3)) [] [] (init False) = Some (init False)"
    and r0: "returned (init False) = None"
    by (simp_all add: init_def)
  have n: "(- 3 :: int) < 0" by simp
  from CheckURLs_empty [OF e] r n CheckURLs_empty [of 5000 10 "[]" True "init True"]
    CheckURLs_empty [OF e0] r0
  show ?thesis
    by (auto simp: CheckURLs_def e)
qed

text \<open>
  Claim C6 as stated fails for a negative worker limit: with a limit of -3 and no URL
  the first step of the call does not return, and the calling goroutine on its own gets
  no further than the receive on \<^verbatim>\<open>results\<close>, where it waits for the closing
  goroutine.
\<close>

theorem CheckURLs_empty_counterexample:
  "map_option (\<lambda>s. (main s, returned s)) (exec (New 5000 (- 3)) [] [EMain] (init False)) =
     Some (MSpawn 0, None) \<and>
   map_option (\<lambda>s. (main s, returned s))
     (exec (New 5000 (- 3)) [] [EMain, EMain, EMain] (init False)) = Some (MCollect, None) \<and>
   exec (New 5000 (- 3)) [] [EMain, EMain, EMain, EMain] (init False) = None"
  by (simp add: step_defs)

text \<open>
  Claim C7, amended.  In a state of a run in which the context is done, no step starts
  a probe; a worker that holds a URL returns without sending a result; and a worker
  whose probe is in flight completes it under the done context: the result sent is the
  one \<^verbatim>\<open>checkURL\<close> yields with a done context, which is a failed request whenever
  the transport fails a request whose context is done.
\<close>

theorem cancellation_policy:
  assumes E: "exec (New timeout mw) urls sched (init ctx) = Some s"
    and C: "cancelled s"
    and S: "step (New timeout mw) urls e s = Some s'"
  shows "probes s' = probes s \<and>
         (\<forall>k w u. e = EWorker k w \<and> k < length (workers s) \<and> workers s ! k = WGot u \<longrightarrow>
            workers s' = (workers s)[k := WDone] \<and> results s' = results s) \<and>
         (\<forall>k w u. e = EWorker k w \<and> k < length (workers s) \<and> workers s ! k = WProbing u \<longrightarrow>
            (\<exists>r. checkURL (New timeout mw) w True u = Some r \<and> results s' = results s @ [r] \<and>
                 (\<forall>m. request_error w u = None \<and> round_trip w timeout True u = NetFail m \<longrightarrow>
                    \<not> Available r \<and> StatusCode r = 0 \<and> Error r = ''request failed: '' @ m)))"
proof -
  note I = inv_reachable [OF E]
  have 1: "probes s' = probes s" using S C by (rule probes_step_cancelled)
  have 2: "workers s' = (workers s)[k := WDone] \<and> results s' = results s"
    if "e = EWorker k w" "k < length (workers s)" "workers s ! k = WGot u" for k w u
    using observe_cancel_step [OF I C that(2,3)] S that(1) by simp
  have 3: "\<exists>r. checkURL (New timeout mw) w True u = Some r \<and> results s' = results s @ [r] \<and>
                 (\<forall>m. request_error w u = None \<and> round_trip w timeout True u = NetFail m \<longrightarrow>
                    \<not> Available r \<and> StatusCode r = 0 \<and> Error r = ''request failed: '' @ m)"
    if "e = EWorker k w" "k < length (workers s)" "workers s ! k = WProbing u" for k w u
  proof -
    from finish_probe_step [OF I that(2,3)] S that(1) C obtain r where
      r: "checkURL (New timeout mw) w True u = Some r" "results s' = results s @ [r]" by auto
    with checkURL_transport_failure [OF r(1)] show ?thesis by blast
  qed
  from 1 2 3 show ?thesis by blast
qed

theorem cancellation_policy_witness:
  "(\<exists>s s'. exec (New 5000 1) [''http://ok''] sched_inflight (init False) = Some s \<and>
           workers s = [WProbing ''http://ok''] \<and> cancelled s \<and>
           step (New 5000 1) [''http://ok''] (EWorker 0 world_ok) s = Some s' \<and>
           probes s' = probes s \<and>
           map Error (results s') =
             [''request failed: '' @ url_error ''http://ok'' ''context canceled'']) \<and>
   (\<exists>s s'. exec (New 5000 1) [''http://ok'', ''http://gone''] sched_holding (init False) = Some s \<and>
           workers s = [WGot ''http://gone''] \<and> cancelled s \<and>
           step (New 5000 1) [''http://ok'', ''http://gone''] (EWorker 0 world_ok) s = Some s' \<and>
           probes s' = probes s \<and> workers s' = [WDone] \<and> results s' = results s)"
proof -
  obtain s where e: "exec (New 5000 1) [''http://ok''] sched_inflight (init False) = Some s"
    and w: "workers s = [WProbing ''http://ok'']" and c: "cancelled s" and r: "results s = []"
    and n: "\<not> results_closed s" "\<not> panicked s"
    by (simp add: sched_inflight_def step_defs)
  obtain s' where s: "step (New 5000 1) [''http://ok''] (EWorker 0 world_ok) s = Some s'"
    using w c r n by (simp add: step_defs)
  have t: "request_error world_ok ''http://ok'' = None \<and>
           round_trip world_ok 5000 True ''http://ok'' =
             NetFail (url_error ''http://ok'' ''context canceled'')"
    by (simp add: world_ok_def)
  from cancellation_policy [OF e c s] w r t have
    "probes s' = probes s \<and>
     map Error (results s') =
       [''request failed: '' @ url_error ''http://ok'' ''context canceled'']"
    by fastforce
  with e w c s have 1:
    "\<exists>s s'. exec (New 5000 1) [''http://ok''] sched_inflight (init False) = Some s \<and>
           workers s = [WProbing ''http://ok''] \<and> cancelled s \<and>
           step (New 5000 1) [''http://ok''] (EWorker 0 world_ok) s = Some s' \<and>
           probes s' = probes s \<and>
           map Error (results s') =
             [''request failed: '' @ url_error ''http://ok'' ''context canceled'']"
    by (intro exI [of _ s] exI [of _ s']) simp
  obtain h where eh:
      "exec (New 5000 1) [''http://ok'', ''http://gone''] sched_holding (init False) = Some h"
    and wh: "workers h = [WGot ''http://gone'']" and ch: "cancelled h"
    and nh: "0 < wg h" "\<not> panicked h"
    by (simp add: sched_holding_def step_defs)
  obtain h' where sh:
      "step (New 5000 1) [''http://ok'', ''http://gone''] (EWorker 0 world_ok) h = Some h'"
    using wh ch nh by (simp add: step_defs)
  from cancellation_policy [OF eh ch sh] wh have
    "probes h' = probes h \<and> workers h' = [WDone] \<and> results h' = results h"
    by fastforce
  with eh wh ch sh have 2:
    "\<exists>s s'. exec (New 5000 1) [''http://ok'', ''http://gone''] sched_holding (init False) = Some s \<and>
           workers s = [WGot ''http://gone''] \<and> cancelled s \<and>
           step (New 5000 1) [''http://ok'', ''http://gone''] (EWorker 0 world_ok) s = Some s' \<and>
           probes s' = probes s \<and> workers s' = [WDone] \<and> results s' = results s"
    by (intro exI [of _ h] exI [of _ h']) simp
  from 1 2 show ?thesis by (rule conjI)
qed

text \<open>
  Claim C7 as stated fails in its second half: the request is built with the context of
  the batch, so a probe in flight is cut short when that context becomes done.  In the
  same world and under the same schedule, the only probe ends as a failed request when
  the context becomes done while it is in flight, and as a response when it does not.
\<close>

theorem cancellation_inflight_counterexample:
  "map_option (map Error)
     (CheckURLs (New 5000 1) False [''http://ok''] (sched_one True)) =
     Some [''request failed: '' @ url_error ''http://ok'' ''context canceled''] \<and>
   map_option (map Error)
     (CheckURLs (New 5000 1) False [''http://ok''] (sched_one False)) = Some [[]]"
  by (simp add: CheckURLs_def sched_one_def step_defs)

text \<open>
  Claim C9.  With a worker limit of at most 0, whatever the URL list: no worker is
  spawned and no probe started, nothing panics, the run has at most \<open>5 n + 10\<close> steps
  and is never stuck before the call returns, and the slice returned is empty.
\<close>

theorem CheckURLs_nonpositive_workers:
  assumes "mw \<le> 0" and "exec (New timeout mw) urls sched (init ctx) = Some s"
  shows "workers s = [] \<and> probes s = 0 \<and> \<not> panicked s \<and>
         length sched \<le> 5 * length urls + 10 \<and>
         (returned s = None \<longrightarrow> (\<exists>e s'. e \<noteq> ECancel \<and> step (New timeout mw) urls e s = Some s')) \<and>
         (\<forall>rs. returned s = Some rs \<longrightarrow> rs = [])"
proof -
  note I = inv_reachable [OF assms(2)]
  from assms(1) have W: "workerCount (New timeout mw) urls \<le> 0"
    by (simp add: workerCount_def maxWorkers_New)
  from inv_parts(1) [OF I] have "\<not> panicked s" by (simp add: inv_sync_def)
  moreover from exec_bound [OF inv_init assms(2)] mu_init_no_workers [OF W, of ctx]
  have "length sched \<le> 5 * length urls + 10" by simp
  ultimately show ?thesis
    using no_workers_run [OF assms(2) W]
      progress_no_workers [OF I _ no_workers_run(1) [OF assms(2) W]] by blast
qed

theorem CheckURLs_nonpositive_workers_witness:
  "CheckURLs (New 5000 (- 1)) False [''http://ok''] sched_no_workers = Some [] \<and>
   map_option probes (exec (New 5000 (- 1)) [''http://ok''] sched_no_workers (init False)) =
     Some 0 \<and>
   (\<exists>e s'. e \<noteq> ECancel \<and> step (New 5000 (- 1)) [''http://ok''] e (init False) = Some s')"
proof -
  obtain s where e: "exec (New 5000 (- 1)) [''http://ok''] sched_no_workers (init False) = Some s"
    and r: "returned s \<noteq> None"
    by (simp add: sched_no_workers_def step_defs)
  have e0: "exec (New 5000 (- 1)) [''http://ok''] [] (init False) = Some (init False)"
    and r0: "returned (init False) = None"
    by (simp_all add: init_def)
  have "(- 1 :: int) \<le> 0" by simp
  from CheckURLs_nonpositive_workers [OF this e] CheckURLs_nonpositive_workers [OF this e0] r r0
  show ?thesis
    by (auto simp: CheckURLs_def e)
qed

section \<open>Further properties\<close>

text \<open>
  No outcome is lost between a probe and the caller: when the call has returned, the
  slice returned has one result for every call of \<^verbatim>\<open>checkURL\<close> that was started,
  whatever the checker, the schedule and the state of the context.
\<close>

theorem CheckURLs_no_lost_outcome:
  assumes E: "exec c urls sched (init ctx) = Some s" and R: "returned s = Some rs"
  shows "probes s = length rs"
proof -
  note I = inv_reachable [OF E]
  note sy = inv_parts(1) [OF I, unfolded inv_sync_def]
  note ph = inv_parts(2) [OF I, unfolded inv_phase_def]
  note pr = inv_parts(5) [OF I, unfolded inv_probe_def]
  note m = returned_checkResults [OF I R]
  have "nprobing (workers s) = 0 \<and> results s = []"
  proof (cases "workerCount c urls = 0")
    case True
    with m(1) ph sy show ?thesis by (simp add: nprobing_def)
  next
    case False
    with m(1) ph have cl: "closer s = CDone" and res: "results s = []" by simp_all
    from sy cl have "alive (workers s) = 0" by simp
    with nprobing_le_inflight [of "workers s"] inflight_le_alive [of "workers s"] res
    show ?thesis by simp
  qed
  with pr m(2) show ?thesis by simp
qed

theorem CheckURLs_no_lost_outcome_witness:
  "map_option probes
     (exec (New 5000 1) [''http://ok'', ''http://gone''] sched_cancel_mid (init False)) = Some 1 \<and>
   map_option length
     (CheckURLs (New 5000 1) False [''http://ok'', ''http://gone''] sched_cancel_mid) = Some 1"
proof -
  obtain s rs where
    e: "exec (New 5000 1) [''http://ok'', ''http://gone''] sched_cancel_mid (init False) = Some s"
    and r: "returned s = Some rs" and l: "length rs = 1"
    by (simp add: sched_cancel_mid_def step_defs)
  from CheckURLs_no_lost_outcome [OF e r] l show ?thesis
    by (simp add: CheckURLs_def e r)
qed

text \<open>
  Whenever \<^verbatim>\<open>client.Do\<close> comes back, with a response or with an error, the response
  time of the result is the time from \<^verbatim>\<open>start\<close> to that moment in whole milliseconds,
  and the result carries the URL probed and the time the probe began.
\<close>

theorem checkURL_response_time:
  assumes "request_error w url = None"
    and "client_do (client c) (round_trip w (Timeout (client c)) ctx) [] url = Some (n, res)"
  shows "\<exists>r. checkURL c w ctx url = Some r \<and>
             ResponseTimeMs r = Milliseconds (clock_done w - clock_start w) \<and>
             URL r = url \<and> CheckedAt r = clock_checked w"
  using assms by (cases res) (simp_all add: checkURL_def)

theorem checkURL_response_time_witness:
  "\<exists>r. checkURL (New 5000 10) world_ok False ''http://moved'' = Some r \<and>
        ResponseTimeMs r = 42 \<and> URL r = ''http://moved'' \<and> CheckedAt r = 0"
proof -
  have a: "request_error world_ok ''http://moved'' = None"
    by (simp add: world_ok_def)
  have b: "client_do (client (New 5000 10))
             (round_trip world_ok (Timeout (client (New 5000 10))) False) [] ''http://moved'' =
           Some ([''http://moved''], DoResp 301)"
    by (simp add: client_do_New world_ok_def)
  have c: "Milliseconds (clock_done world_ok - clock_start world_ok) = 42"
    and d: "clock_checked world_ok = 0"
    by (simp_all add: Milliseconds_def world_ok_def)
  from checkURL_response_time [OF a b] c d show ?thesis by auto
qed

end
